theory Spec2Isabelle
  imports Main
begin

section \<open>Payloads, base64 and the size estimate\<close>

text \<open>
  A Python \<open>bytes\<close> value is a list of 8-bit characters. A Python \<open>str\<close> payload is
  represented by its UTF-8 encoding, so \<open>m.encode('utf-8')\<close> is the identity on the
  representation and \<open>length\<close> counts encoded bytes.
\<close>

type_synonym bytes = string
type_synonym payload = string

definition encode_utf8 :: "payload \<Rightarrow> bytes" where
  "encode_utf8 m = m"

text \<open>\<open>base64.b64encode\<close> of the standard library: standard alphabet, \<open>=\<close> padding.\<close>

definition b64_alphabet :: string where
  "b64_alphabet = ''ABCDEFGHIJKLMNOPQRSTUVWXYZabcdefghijklmnopqrstuvwxyz0123456789+/''"

definition b64_digit :: "nat \<Rightarrow> char" where
  "b64_digit i = b64_alphabet ! (i mod 64)"

fun b64encode :: "bytes \<Rightarrow> bytes" where
  "b64encode [] = []"
| "b64encode [a] =
     (let n = of_char a * 65536 in
      [b64_digit (n div 262144), b64_digit (n div 4096), CHR ''='', CHR ''=''])"
| "b64encode [a, b] =
     (let n = of_char a * 65536 + of_char b * 256 in
      [b64_digit (n div 262144), b64_digit (n div 4096), b64_digit (n div 64), CHR ''=''])"
| "b64encode (a # b # c # rest) =
     (let n = of_char a * 65536 + of_char b * 256 + of_char c in
      [b64_digit (n div 262144), b64_digit (n div 4096), b64_digit (n div 64), b64_digit n]
      @ b64encode rest)"

text \<open>
  \<open>OciStreamSender.estimate_batch_bytes\<close> (the same body in the function app and in the
  drain script):
  \<^verbatim>\<open>sum(len(b64encode(m.encode('utf-8'))) for m in messages) + len(messages) * 50\<close>
\<close>

definition estimate_batch_bytes :: "payload list \<Rightarrow> int" where
  "estimate_batch_bytes messages =
     (\<Sum>m\<leftarrow>messages. int (length (b64encode (encode_utf8 m)))) + int (length messages) * 50"

section \<open>The sink and the sender\<close>

text \<open>
  \<open>client.put_messages\<close> is the external sink. A call either raises or returns the
  per-item entries (\<open>True\<close>: the entry carries an error; \<open>resp.data.entries or []\<close>
  makes a missing list the empty one). The sink's answer may depend on every call made
  before, so it is a function of the trace of earlier calls and of the batch. The trace
  records each batch handed to \<open>put_messages\<close>, in call order.
\<close>

datatype sink_reply = Raises | Entries "bool list"

datatype error = SinkUnavailableError | UnicodeDecodeError

type_synonym trace = "payload list list"
type_synonym sink = "trace \<Rightarrow> payload list \<Rightarrow> sink_reply"

text \<open>The counting loop of \<open>send_batch\<close> over the returned entries.\<close>

fun count_entries :: "bool list \<Rightarrow> int \<Rightarrow> int \<Rightarrow> int \<times> int" where
  "count_entries [] sent failed = (sent, failed)"
| "count_entries (e # es) sent failed =
     (if e then count_entries es sent (failed + 1) else count_entries es (sent + 1) failed)"

definition send_batch :: "sink \<Rightarrow> payload list \<Rightarrow> trace \<Rightarrow> (error + int \<times> int) \<times> trace" where
  "send_batch snk payloads tr =
     (if payloads = [] then (Inr (0, 0), tr)
      else case snk tr payloads of
             Raises \<Rightarrow> (Inl SinkUnavailableError, tr @ [payloads])
           | Entries es \<Rightarrow> (Inr (count_entries es 0 0), tr @ [payloads]))"

text \<open>
  The \<open>for p in payloads\<close> loop of \<open>send_with_limits\<close>; the locals \<open>total_sent\<close>,
  \<open>total_failed\<close>, \<open>batches\<close> and \<open>batch\<close> are threaded as arguments.
\<close>

fun send_loop ::
  "sink \<Rightarrow> int \<Rightarrow> int \<Rightarrow> payload list \<Rightarrow> int \<Rightarrow> int \<Rightarrow> int \<Rightarrow> payload list \<Rightarrow> trace
   \<Rightarrow> (error + int \<times> int \<times> int \<times> payload list) \<times> trace" where
  "send_loop snk mbytes mcount [] tsent tfailed nbatches batch tr =
     (Inr (tsent, tfailed, nbatches, batch), tr)"
| "send_loop snk mbytes mcount (p # ps) tsent tfailed nbatches batch tr =
     (let candidate = batch @ [p] in
      if int (length candidate) > mcount \<or> estimate_batch_bytes candidate > mbytes then
        (case send_batch snk batch tr of
           (Inl e, tr') \<Rightarrow> (Inl e, tr')
         | (Inr (s, f), tr') \<Rightarrow>
             send_loop snk mbytes mcount ps (tsent + s) (tfailed + f) (nbatches + 1) [p] tr')
      else send_loop snk mbytes mcount ps tsent tfailed nbatches candidate tr)"

definition send_with_limits ::
  "sink \<Rightarrow> payload list \<Rightarrow> int \<Rightarrow> int \<Rightarrow> trace \<Rightarrow> (error + int \<times> int \<times> int) \<times> trace" where
  "send_with_limits snk payloads mbytes mcount tr =
     (case send_loop snk mbytes mcount payloads 0 0 0 [] tr of
        (Inl e, tr') \<Rightarrow> (Inl e, tr')
      | (Inr (tsent, tfailed, nbatches, batch), tr') \<Rightarrow>
          if batch \<noteq> [] then
            (case send_batch snk batch tr' of
               (Inl e, tr'') \<Rightarrow> (Inl e, tr'')
             | (Inr (s, f), tr'') \<Rightarrow> (Inr (tsent + s, tfailed + f, nbatches + 1), tr''))
          else (Inr (tsent, tfailed, nbatches), tr'))"

text \<open>
  \<open>send_with_size_limit\<close> of the drain script: the same loop, written again there.
\<close>

fun size_limit_loop ::
  "sink \<Rightarrow> int \<Rightarrow> int \<Rightarrow> payload list \<Rightarrow> int \<Rightarrow> int \<Rightarrow> int \<Rightarrow> payload list \<Rightarrow> trace
   \<Rightarrow> (error + int \<times> int \<times> int \<times> payload list) \<times> trace" where
  "size_limit_loop snk mbytes mcount [] tsent tfailed nbatches batch tr =
     (Inr (tsent, tfailed, nbatches, batch), tr)"
| "size_limit_loop snk mbytes mcount (p # ps) tsent tfailed nbatches batch tr =
     (let candidate = batch @ [p] in
      if int (length candidate) > mcount \<or> estimate_batch_bytes candidate > mbytes then
        (case send_batch snk batch tr of
           (Inl e, tr') \<Rightarrow> (Inl e, tr')
         | (Inr (s, f), tr') \<Rightarrow>
             size_limit_loop snk mbytes mcount ps (tsent + s) (tfailed + f) (nbatches + 1) [p] tr')
      else size_limit_loop snk mbytes mcount ps tsent tfailed nbatches candidate tr)"

definition send_with_size_limit ::
  "sink \<Rightarrow> payload list \<Rightarrow> int \<Rightarrow> int \<Rightarrow> trace \<Rightarrow> (error + int \<times> int \<times> int) \<times> trace" where
  "send_with_size_limit snk payloads mbytes mcount tr =
     (case size_limit_loop snk mbytes mcount payloads 0 0 0 [] tr of
        (Inl e, tr') \<Rightarrow> (Inl e, tr')
      | (Inr (tsent, tfailed, nbatches, batch), tr') \<Rightarrow>
          if batch \<noteq> [] then
            (case send_batch snk batch tr' of
               (Inl e, tr'') \<Rightarrow> (Inl e, tr'')
             | (Inr (s, f), tr'') \<Rightarrow> (Inr (tsent + s, tfailed + f, nbatches + 1), tr''))
          else (Inr (tsent, tfailed, nbatches), tr'))"

section \<open>HubBuffer\<close>

record hub_buffer =
  max_count :: int
  max_bytes :: int
  buf :: "payload list"
  sent :: int
  failed :: int
  batches :: int

definition HubBuffer :: "int \<Rightarrow> int \<Rightarrow> hub_buffer" where
  "HubBuffer mcount mbytes =
     \<lparr>max_count = mcount, max_bytes = mbytes, buf = [], sent = 0, failed = 0, batches = 0\<rparr>"

text \<open>
  \<open>HubBuffer._flush_if_needed\<close>. When \<open>send_with_limits\<close> raises, the exception leaves
  the method before any field is assigned.
\<close>

definition flush_if_needed ::
  "sink \<Rightarrow> bool \<Rightarrow> hub_buffer \<Rightarrow> trace \<Rightarrow> (error + unit) \<times> hub_buffer \<times> trace" where
  "flush_if_needed snk force hb tr =
     (if buf hb = [] then (Inr (), hb, tr)
      else if force \<or> int (length (buf hb)) \<ge> max_count hb
                \<or> estimate_batch_bytes (buf hb) \<ge> max_bytes hb then
        (case send_with_limits snk (buf hb) (max_bytes hb) (max_count hb) tr of
           (Inl e, tr') \<Rightarrow> (Inl e, hb, tr')
         | (Inr (s, f, b), tr') \<Rightarrow>
             (Inr (),
              hb\<lparr>sent := sent hb + s, failed := failed hb + f, batches := batches hb + b,
                 buf := []\<rparr>,
              tr'))
      else (Inr (), hb, tr))"

definition add ::
  "sink \<Rightarrow> payload \<Rightarrow> hub_buffer \<Rightarrow> trace \<Rightarrow> (error + unit) \<times> hub_buffer \<times> trace" where
  "add snk p hb tr = flush_if_needed snk False (hb\<lparr>buf := buf hb @ [p]\<rparr>) tr"

definition flush :: "sink \<Rightarrow> hub_buffer \<Rightarrow> trace \<Rightarrow> (error + unit) \<times> hub_buffer \<times> trace" where
  "flush snk hb tr = flush_if_needed snk True hb tr"

section \<open>The function app's main loop\<close>

text \<open>
  \<open>bytes.decode('utf-8')\<close> with strict errors: the input is accepted when it is a
  sequence of well-formed UTF-8 code unit sequences (no overlong form, no surrogate,
  nothing above U+10FFFF). The decoded \<open>str\<close> is represented by the same bytes.
\<close>

definition in_range :: "char \<Rightarrow> nat \<Rightarrow> nat \<Rightarrow> bool" where
  "in_range c lo hi = (lo \<le> of_char c \<and> of_char c \<le> hi)"

fun utf8_valid :: "bytes \<Rightarrow> bool" where
  "utf8_valid [] = True"
| "utf8_valid (c # cs) =
     (let b = (of_char c :: nat) in
      if b < 0x80 then utf8_valid cs
      else if 0xC2 \<le> b \<and> b \<le> 0xDF then
        (case cs of
           c1 # r \<Rightarrow> in_range c1 0x80 0xBF \<and> utf8_valid r
         | _ \<Rightarrow> False)
      else if 0xE0 \<le> b \<and> b \<le> 0xEF then
        (case cs of
           c1 # c2 # r \<Rightarrow>
             in_range c1 (if b = 0xE0 then 0xA0 else 0x80) (if b = 0xED then 0x9F else 0xBF)
             \<and> in_range c2 0x80 0xBF \<and> utf8_valid r
         | _ \<Rightarrow> False)
      else if 0xF0 \<le> b \<and> b \<le> 0xF4 then
        (case cs of
           c1 # c2 # c3 # r \<Rightarrow>
             in_range c1 (if b = 0xF0 then 0x90 else 0x80) (if b = 0xF4 then 0x8F else 0xBF)
             \<and> in_range c2 0x80 0xBF \<and> in_range c3 0x80 0xBF \<and> utf8_valid r
         | _ \<Rightarrow> False)
      else False)"

definition decode_utf8 :: "bytes \<Rightarrow> error + payload" where
  "decode_utf8 bs = (if utf8_valid bs then Inr bs else Inl UnicodeDecodeError)"

text \<open>
  \<open>str.isspace\<close>: at least one character, and every character is one of U+0009..U+000D,
  U+001C..U+0020, U+0085, U+00A0, U+1680, U+2000..U+200A, U+2028, U+2029, U+202F, U+205F,
  U+3000, read here in their UTF-8 encoding.
\<close>

fun all_whitespace :: "nat list \<Rightarrow> bool" where
  "all_whitespace [] = True"
| "all_whitespace (b # bs) =
     (if (9 \<le> b \<and> b \<le> 13) \<or> (28 \<le> b \<and> b \<le> 32) then all_whitespace bs
      else if b = 0xC2 then
        (case bs of b1 # r \<Rightarrow> (b1 = 0x85 \<or> b1 = 0xA0) \<and> all_whitespace r | _ \<Rightarrow> False)
      else if b = 0xE1 then
        (case bs of b1 # b2 # r \<Rightarrow> b1 = 0x9A \<and> b2 = 0x80 \<and> all_whitespace r | _ \<Rightarrow> False)
      else if b = 0xE2 then
        (case bs of
           b1 # b2 # r \<Rightarrow>
             ((b1 = 0x80 \<and> ((0x80 \<le> b2 \<and> b2 \<le> 0x8A) \<or> b2 = 0xA8 \<or> b2 = 0xA9 \<or> b2 = 0xAF))
              \<or> (b1 = 0x81 \<and> b2 = 0x9F))
             \<and> all_whitespace r
         | _ \<Rightarrow> False)
      else if b = 0xE3 then
        (case bs of b1 # b2 # r \<Rightarrow> b1 = 0x80 \<and> b2 = 0x80 \<and> all_whitespace r | _ \<Rightarrow> False)
      else False)"

definition isspace :: "payload \<Rightarrow> bool" where
  "isspace body = (body \<noteq> [] \<and> all_whitespace (map of_char body))"

record main_state =
  buffer :: hub_buffer
  processed_count :: int
  error_count :: int

text \<open>
  The body of the \<open>for i, event in enumerate(events)\<close> loop of \<open>main\<close>; an event is its
  body bytes. Both \<open>except\<close> clauses add one to \<open>error_count\<close>; an exception out of
  \<open>buffer.add\<close> arrives after the payload was appended.
\<close>

definition process_event :: "sink \<Rightarrow> bytes \<Rightarrow> main_state \<Rightarrow> trace \<Rightarrow> main_state \<times> trace" where
  "process_event snk event st tr =
     (case decode_utf8 event of
        Inl e \<Rightarrow> (st\<lparr>error_count := error_count st + 1\<rparr>, tr)
      | Inr body \<Rightarrow>
          if body = [] \<or> isspace body then (st, tr)
          else (case add snk body (buffer st) tr of
                  (Inl e, hb, tr') \<Rightarrow>
                    (st\<lparr>buffer := hb, error_count := error_count st + 1\<rparr>, tr')
                | (Inr u, hb, tr') \<Rightarrow>
                    (st\<lparr>buffer := hb, processed_count := processed_count st + 1\<rparr>, tr')))"

fun main_loop :: "sink \<Rightarrow> bytes list \<Rightarrow> main_state \<Rightarrow> trace \<Rightarrow> main_state \<times> trace" where
  "main_loop snk [] st tr = (st, tr)"
| "main_loop snk (event # events) st tr =
     (case process_event snk event st tr of (st', tr') \<Rightarrow> main_loop snk events st' tr')"

text \<open>
  \<open>main\<close> from the point where the sender is built: the limits are the values read from
  the settings. The result is the summary \<open>(processed, sent, failed, batches)\<close> of the
  final log line, \<open>None\<close> when the event list is empty, or the exception of the final
  flush.
\<close>

definition main ::
  "sink \<Rightarrow> int \<Rightarrow> int \<Rightarrow> bytes list \<Rightarrow> trace
   \<Rightarrow> (error + (int \<times> int \<times> int \<times> int) option) \<times> trace" where
  "main snk max_batch_count max_batch_bytes events tr =
     (if events = [] then (Inr None, tr)
      else
        case main_loop snk events
               \<lparr>buffer = HubBuffer max_batch_count max_batch_bytes,
                processed_count = 0, error_count = 0\<rparr> tr of
          (st, tr1) \<Rightarrow>
            (case flush snk (buffer st) tr1 of
               (Inl e, hb, tr2) \<Rightarrow> (Inl e, tr2)
             | (Inr u, hb, tr2) \<Rightarrow>
                 (Inr (Some (processed_count st, sent hb, failed hb + error_count st,
                             batches hb)),
                  tr2)))"

section \<open>The drain script's buffer\<close>

text \<open>
  The console lines of \<open>EventHubDrainer._flush_if_needed\<close>: \<open>WouldSend n\<close> is
  "Would send n messages to OCI (logging only)", \<open>Flushed s b f\<close> is
  "Flushed s msgs to OCI (batches=b, failed=f)".
\<close>

datatype notice = WouldSend nat | Flushed int int int

type_synonym console = "notice list"

text \<open>
  The fields of \<open>EventHubDrainer\<close> that \<open>_flush_if_needed\<close> reads and writes;
  \<open>drainer_buffer\<close> is \<open>self._buffer\<close> and \<open>drainer_batches\<close> is \<open>self.batches\<close>.
  Without a sender (\<open>oci_sender\<close> is \<open>None\<close>) the drainer runs in log-only mode.
\<close>

record drainer =
  oci_sender :: "sink option"
  max_batch_bytes :: int
  max_batch_count :: int
  drainer_buffer :: "payload list"
  messages_processed :: int
  messages_sent :: int
  messages_failed :: int
  drainer_batches :: int

text \<open>
  The block that \<open>_flush_if_needed\<close> runs both when forced and when a threshold is
  reached: the buffer is copied and cleared before the sender is called.
\<close>

definition drainer_send ::
  "sink \<Rightarrow> drainer \<Rightarrow> trace \<Rightarrow> console \<Rightarrow> (error + unit) \<times> drainer \<times> trace \<times> console" where
  "drainer_send snk d tr out =
     (let to_send = drainer_buffer d; d1 = d\<lparr>drainer_buffer := []\<rparr> in
      case send_with_size_limit snk to_send (max_batch_bytes d) (max_batch_count d) tr of
        (Inl e, tr') \<Rightarrow> (Inl e, d1, tr', out)
      | (Inr (s, f, b), tr') \<Rightarrow>
          (Inr (),
           d1\<lparr>messages_sent := messages_sent d + s, messages_failed := messages_failed d + f,
              drainer_batches := drainer_batches d + b\<rparr>,
           tr', out @ [Flushed s b f]))"

definition drainer_flush_if_needed ::
  "bool \<Rightarrow> drainer \<Rightarrow> trace \<Rightarrow> console \<Rightarrow> (error + unit) \<times> drainer \<times> trace \<times> console" where
  "drainer_flush_if_needed force d tr out =
     (case oci_sender d of
        None \<Rightarrow>
          if force \<and> drainer_buffer d \<noteq> [] then
            (Inr (), d\<lparr>drainer_buffer := []\<rparr>, tr,
             out @ [WouldSend (length (drainer_buffer d))])
          else (Inr (), d, tr, out)
      | Some snk \<Rightarrow>
          if drainer_buffer d = [] then (Inr (), d, tr, out)
          else if force then drainer_send snk d tr out
          else
            (let est = estimate_batch_bytes (drainer_buffer d) in
             if int (length (drainer_buffer d)) \<ge> max_batch_count d \<or> est \<ge> max_batch_bytes d
             then drainer_send snk d tr out
             else (Inr (), d, tr, out)))"

text \<open>A drainer as built with \<open>--no-oci\<close> and the default limits, before any event.\<close>

definition log_only :: drainer where
  "log_only = \<lparr>oci_sender = None, max_batch_bytes = 1048576, max_batch_count = 100,
     drainer_buffer = [], messages_processed = 0, messages_sent = 0, messages_failed = 0,
     drainer_batches = 0\<rparr>"

section \<open>Specification vocabulary\<close>

text \<open>
  The predicates below are not code of the repository: they state, in the words of the
  specification, what the theorems say about the functions above.

  A batch \<open>fits\<close> when it is within both limits. A dispatched batch is \<open>admissible\<close>
  when it fits, or is a single payload that alone breaks a limit.
\<close>

definition fits :: "int \<Rightarrow> int \<Rightarrow> payload list \<Rightarrow> bool" where
  "fits mbytes mcount b = (int (length b) \<le> mcount \<and> estimate_batch_bytes b \<le> mbytes)"

definition admissible :: "int \<Rightarrow> int \<Rightarrow> payload list \<Rightarrow> bool" where
  "admissible mbytes mcount b =
     (fits mbytes mcount b \<or> (length b = 1 \<and> (estimate_batch_bytes b > mbytes \<or> mcount < 1)))"

text \<open>
  A list of batches is \<open>greedy\<close> when no batch but the last could have taken the first
  payload of the batch after it.
\<close>

fun greedy :: "int \<Rightarrow> int \<Rightarrow> payload list list \<Rightarrow> bool" where
  "greedy mbytes mcount (b1 # b2 # bs) =
     (\<not> fits mbytes mcount (b1 @ take 1 b2) \<and> greedy mbytes mcount (b2 # bs))"
| "greedy mbytes mcount bs = True"

text \<open>
  \<open>tally snk tr bs\<close> is what the sink reports for the batches \<open>bs\<close> handed to it one
  after the other from the trace \<open>tr\<close>: the number of entries without and with an error.
  \<open>replies_ok snk tr bs\<close> holds when none of these calls raises.
\<close>

fun tally :: "sink \<Rightarrow> trace \<Rightarrow> payload list list \<Rightarrow> int \<times> int" where
  "tally snk tr [] = (0, 0)"
| "tally snk tr (b # bs) =
     (case snk tr b of
        Raises \<Rightarrow> tally snk (tr @ [b]) bs
      | Entries es \<Rightarrow>
          (int (length (filter Not es)) + fst (tally snk (tr @ [b]) bs),
           int (length (filter id es)) + snd (tally snk (tr @ [b]) bs)))"

fun replies_ok :: "sink \<Rightarrow> trace \<Rightarrow> payload list list \<Rightarrow> bool" where
  "replies_ok snk tr [] = True"
| "replies_ok snk tr (b # bs) = (snk tr b \<noteq> Raises \<and> replies_ok snk (tr @ [b]) bs)"

text \<open>The condition under which \<open>HubBuffer._flush_if_needed\<close> sends a non-empty buffer.\<close>

definition triggered :: "bool \<Rightarrow> hub_buffer \<Rightarrow> bool" where
  "triggered force hb =
     (force \<or> int (length (buf hb)) \<ge> max_count hb
            \<or> estimate_batch_bytes (buf hb) \<ge> max_bytes hb)"

text \<open>
  The body that \<open>main\<close> hands to the buffer for an event, if any: none for an event that
  does not decode and none for a decoded body that is empty or all whitespace.
  \<open>accepted\<close> lists these bodies in arrival order; \<open>undecodable\<close> lists the events that
  fail to decode.
\<close>

definition event_payload :: "bytes \<Rightarrow> payload option" where
  "event_payload event =
     (case decode_utf8 event of
        Inl e \<Rightarrow> None
      | Inr body \<Rightarrow> if body = [] \<or> isspace body then None else Some body)"

fun accepted :: "bytes list \<Rightarrow> payload list" where
  "accepted [] = []"
| "accepted (e # es) =
     (case event_payload e of None \<Rightarrow> accepted es | Some b \<Rightarrow> b # accepted es)"

definition undecodable :: "bytes list \<Rightarrow> bytes list" where
  "undecodable events = filter (\<lambda>e. \<not> utf8_valid e) events"

text \<open>
  Three sinks for concrete runs: one that accepts every item, one that reports an error
  for the payload \<open>bad\<close>, and one that answers its first call and raises on every later
  one.
\<close>

definition accepting_sink :: sink where
  "accepting_sink tr b = Entries (map (\<lambda>p. False) b)"

definition picky_sink :: sink where
  "picky_sink tr b = Entries (map (\<lambda>p. p = ''bad'') b)"

definition flaky_sink :: sink where
  "flaky_sink tr b = (if tr = [] then Entries (map (\<lambda>p. False) b) else Raises)"

section \<open>Properties of the size estimate\<close>

lemma length_b64encode: "length (b64encode bs) = 4 * ((length bs + 2) div 3)"
proof (induction bs rule: b64encode.induct)
  case (4 a b c rest)
  have "(length (a # b # c # rest) + 2) div 3 = Suc ((length rest + 2) div 3)"
    by simp
  with 4 show ?case
    by (simp add: Let_def)
qed (simp_all add: Let_def)

text \<open>The encoder agrees with the library on sample inputs.\<close>

lemma b64encode_examples:
  "b64encode ''a'' = ''YQ==''"
  "b64encode ''ab'' = ''YWI=''"
  "b64encode [CHR 0xFF, CHR 0xFE, CHR 0x00, CHR 0xFB] = ''//4A+w==''"
  by (simp_all add: b64_digit_def b64_alphabet_def Let_def)

lemma estimate_append:
  "estimate_batch_bytes (xs @ ys) = estimate_batch_bytes xs + estimate_batch_bytes ys"
  by (simp add: estimate_batch_bytes_def algebra_simps)

lemma estimate_nonneg: "0 \<le> estimate_batch_bytes xs"
proof -
  have "0 \<le> (\<Sum>m\<leftarrow>xs. int (length (b64encode (encode_utf8 m))))"
    by (rule sum_list_nonneg) auto
  then show ?thesis
    by (simp add: estimate_batch_bytes_def)
qed

section \<open>The trace of the batching loop\<close>

lemma send_batch_trace:
  "send_batch snk b tr = (r, tr') \<Longrightarrow> tr' = tr @ (if b = [] then [] else [b])"
  by (auto simp: send_batch_def split: if_splits sink_reply.splits)

lemma send_batch_empty: "send_batch snk [] tr = (Inr (0, 0), tr)"
  by (simp add: send_batch_def)

lemma send_loop_step_close:
  assumes "int (length (batch @ [p])) > mc \<or> estimate_batch_bytes (batch @ [p]) > mb"
    and "send_loop snk mb mc (p # ps) ts tf nb batch tr = (res, tr')"
  shows "(\<exists>e. send_batch snk batch tr = (Inl e, tr') \<and> res = Inl e) \<or>
         (\<exists>s f tr1. send_batch snk batch tr = (Inr (s, f), tr1) \<and>
            send_loop snk mb mc ps (ts + s) (tf + f) (nb + 1) [p] tr1 = (res, tr'))"
  using assms by (auto simp: Let_def split: prod.splits sum.splits)

lemma send_loop_step_keep:
  assumes "\<not> (int (length (batch @ [p])) > mc \<or> estimate_batch_bytes (batch @ [p]) > mb)"
    and "send_loop snk mb mc (p # ps) ts tf nb batch tr = (res, tr')"
  shows "send_loop snk mb mc ps ts tf nb (batch @ [p]) tr = (res, tr')"
  using assms by (simp add: Let_def)

lemma send_loop_trace_ok:
  "send_loop snk mb mc ps ts tf nb batch tr = (Inr (ts', tf', nb', batch'), tr') \<Longrightarrow>
   \<exists>bs. tr' = tr @ bs \<and> [] \<notin> set bs \<and> concat bs @ batch' = batch @ ps"
proof (induction ps arbitrary: ts tf nb batch tr)
  case Nil
  then show ?case by auto
next
  case (Cons p ps)
  show ?case
  proof (cases "int (length (batch @ [p])) > mc \<or> estimate_batch_bytes (batch @ [p]) > mb")
    case False
    from Cons.IH[OF send_loop_step_keep[OF False Cons.prems]] show ?thesis by auto
  next
    case True
    from send_loop_step_close[OF True Cons.prems] obtain s f tr1 where
      sb: "send_batch snk batch tr = (Inr (s, f), tr1)" and
      lp: "send_loop snk mb mc ps (ts + s) (tf + f) (nb + 1) [p] tr1 = (Inr (ts', tf', nb', batch'), tr')"
      by auto
    from Cons.IH[OF lp] obtain bs where
      bs: "tr' = tr1 @ bs" "[] \<notin> set bs" "concat bs @ batch' = [p] @ ps"
      by blast
    from send_batch_trace[OF sb] bs show ?thesis
      by (cases "batch = []") (auto intro: exI[of _ "batch # bs"])
  qed
qed

lemma send_loop_trace_err:
  "send_loop snk mb mc ps ts tf nb batch tr = (Inl e, tr') \<Longrightarrow>
   \<exists>bs rest. tr' = tr @ bs \<and> [] \<notin> set bs \<and> concat bs @ rest = batch @ ps"
proof (induction ps arbitrary: ts tf nb batch tr)
  case Nil
  then show ?case by auto
next
  case (Cons p ps)
  show ?case
  proof (cases "int (length (batch @ [p])) > mc \<or> estimate_batch_bytes (batch @ [p]) > mb")
    case False
    from Cons.IH[OF send_loop_step_keep[OF False Cons.prems]] show ?thesis by auto
  next
    case True
    from send_loop_step_close[OF True Cons.prems] show ?thesis
    proof (elim disjE exE conjE)
      fix e' assume sb: "send_batch snk batch tr = (Inl e', tr')"
      from send_batch_trace[OF sb] show ?thesis
        by (cases "batch = []") (auto intro: exI[of _ "[]"] exI[of _ "[batch]"])
    next
      fix s f tr1
      assume sb: "send_batch snk batch tr = (Inr (s, f), tr1)"
        and lp: "send_loop snk mb mc ps (ts + s) (tf + f) (nb + 1) [p] tr1 = (Inl e, tr')"
      from Cons.IH[OF lp] obtain bs rest where
        bs: "tr' = tr1 @ bs" "[] \<notin> set bs" "concat bs @ rest = [p] @ ps"
        by blast
      from send_batch_trace[OF sb] bs show ?thesis
        by (cases "batch = []") (auto intro: exI[of _ "batch # bs"])
    qed
  qed
qed

lemma size_limit_loop_eq:
  "size_limit_loop snk mb mc ps ts tf nb batch tr = send_loop snk mb mc ps ts tf nb batch tr"
  by (induction ps arbitrary: ts tf nb batch tr)
     (simp_all add: Let_def split: prod.splits sum.splits)

lemma send_with_size_limit_eq:
  "send_with_size_limit snk ps mb mc tr = send_with_limits snk ps mb mc tr"
  by (simp add: send_with_size_limit_def send_with_limits_def size_limit_loop_eq)

lemma send_with_limits_cases:
  assumes "send_with_limits snk ps mb mc tr = (res, tr')"
  shows "(\<exists>e. send_loop snk mb mc ps 0 0 0 [] tr = (Inl e, tr') \<and> res = Inl e) \<or>
         (\<exists>ts tf nb batch tr1 r.
            send_loop snk mb mc ps 0 0 0 [] tr = (Inr (ts, tf, nb, batch), tr1) \<and>
            (if batch = [] then tr' = tr1 \<and> res = Inr (ts, tf, nb)
             else send_batch snk batch tr1 = (r, tr') \<and>
                  (case r of Inl e \<Rightarrow> res = Inl e
                   | Inr (s, f) \<Rightarrow> res = Inr (ts + s, tf + f, nb + 1))))"
  using assms unfolding send_with_limits_def
  by (auto split: prod.splits sum.splits if_splits)

lemma send_with_limits_trace_ok:
  assumes "send_with_limits snk ps mb mc tr = (Inr r, tr')"
  shows "\<exists>bs. tr' = tr @ bs \<and> [] \<notin> set bs \<and> concat bs = ps"
proof -
  from send_with_limits_cases[OF assms] obtain ts tf nb batch tr1 r' where
    lp: "send_loop snk mb mc ps 0 0 0 [] tr = (Inr (ts, tf, nb, batch), tr1)" and
    fin: "if batch = [] then tr' = tr1 \<and> Inr r = (Inr (ts, tf, nb) :: error + int \<times> int \<times> int)
          else send_batch snk batch tr1 = (r', tr') \<and>
               (case r' of Inl e \<Rightarrow> Inr r = (Inl e :: error + int \<times> int \<times> int)
                | Inr (s, f) \<Rightarrow> Inr r = (Inr (ts + s, tf + f, nb + 1) :: error + int \<times> int \<times> int))"
    by auto
  from send_loop_trace_ok[OF lp] obtain bs where
    bs: "tr1 = tr @ bs" "[] \<notin> set bs" "concat bs @ batch = [] @ ps"
    by blast
  show ?thesis
  proof (cases "batch = []")
    case True
    with fin bs show ?thesis by auto
  next
    case False
    with fin have "send_batch snk batch tr1 = (r', tr')" by simp
    from send_batch_trace[OF this] False have "tr' = tr1 @ [batch]" by simp
    with bs False show ?thesis
      by (intro exI[of _ "bs @ [batch]"]) auto
  qed
qed

lemma admissible_single: "admissible mb mc [p]"
  by (auto simp: admissible_def fits_def)

lemma admissible_keep:
  "\<not> (int (length (batch @ [p])) > mc \<or> estimate_batch_bytes (batch @ [p]) > mb) \<Longrightarrow>
   admissible mb mc (batch @ [p])"
  by (simp add: admissible_def fits_def)

lemma send_loop_admissible:
  "send_loop snk mb mc ps ts tf nb batch tr = (res, tr') \<Longrightarrow>
   batch = [] \<or> admissible mb mc batch \<Longrightarrow>
   \<exists>bs. tr' = tr @ bs \<and> (\<forall>b\<in>set bs. admissible mb mc b) \<and>
        (\<forall>ts' tf' nb' batch'. res = Inr (ts', tf', nb', batch') \<longrightarrow>
           batch' = [] \<or> admissible mb mc batch')"
proof (induction ps arbitrary: ts tf nb batch tr)
  case Nil
  then show ?case by auto
next
  case (Cons p ps)
  show ?case
  proof (cases "int (length (batch @ [p])) > mc \<or> estimate_batch_bytes (batch @ [p]) > mb")
    case False
    have a: "batch @ [p] = [] \<or> admissible mb mc (batch @ [p])"
      using admissible_keep[OF False] by simp
    show ?thesis
      by (rule Cons.IH[OF send_loop_step_keep[OF False Cons.prems(1)] a])
  next
    case True
    from send_loop_step_close[OF True Cons.prems(1)] show ?thesis
    proof (elim disjE exE conjE)
      fix e assume sb: "send_batch snk batch tr = (Inl e, tr')" and res: "res = Inl e"
      have "tr' = tr @ (if batch = [] then [] else [batch])"
        using send_batch_trace[OF sb] .
      moreover have "\<forall>b\<in>set (if batch = [] then [] else [batch]). admissible mb mc b"
        using Cons.prems(2) by auto
      ultimately show ?thesis using res by blast
    next
      fix s f tr1
      assume sb: "send_batch snk batch tr = (Inr (s, f), tr1)"
        and lp: "send_loop snk mb mc ps (ts + s) (tf + f) (nb + 1) [p] tr1 = (res, tr')"
      have "[p] = [] \<or> admissible mb mc [p]"
        by (simp add: admissible_single)
      from Cons.IH[OF lp this] obtain bs where
        bs: "tr' = tr1 @ bs" "\<forall>b\<in>set bs. admissible mb mc b"
          "\<forall>ts' tf' nb' batch'. res = Inr (ts', tf', nb', batch') \<longrightarrow>
             batch' = [] \<or> admissible mb mc batch'"
        by blast
      have t1: "tr1 = tr @ (if batch = [] then [] else [batch])"
        using send_batch_trace[OF sb] .
      have "tr' = tr @ ((if batch = [] then [] else [batch]) @ bs)"
        using bs(1) t1 by simp
      moreover have "\<forall>b\<in>set ((if batch = [] then [] else [batch]) @ bs). admissible mb mc b"
        using Cons.prems(2) bs(2) by auto
      ultimately show ?thesis using bs(3) by blast
    qed
  qed
qed

lemma send_with_limits_admissible:
  assumes "send_with_limits snk ps mb mc tr = (res, tr')"
  shows "\<exists>bs. tr' = tr @ bs \<and> (\<forall>b\<in>set bs. admissible mb mc b)"
  using send_with_limits_cases[OF assms]
proof (elim disjE exE conjE)
  fix e assume "send_loop snk mb mc ps 0 0 0 [] tr = (Inl e, tr')"
  from send_loop_admissible[OF this] show ?thesis by blast
next
  fix ts tf nb batch tr1 r
  assume lp: "send_loop snk mb mc ps 0 0 0 [] tr = (Inr (ts, tf, nb, batch), tr1)"
    and fin: "if batch = [] then tr' = tr1 \<and> res = Inr (ts, tf, nb)
          else send_batch snk batch tr1 = (r, tr') \<and>
               (case r of Inl e \<Rightarrow> res = Inl e
                | Inr (s, f) \<Rightarrow> res = Inr (ts + s, tf + f, nb + 1))"
  from send_loop_admissible[OF lp] obtain bs where
    bs: "tr1 = tr @ bs" "\<forall>b\<in>set bs. admissible mb mc b" "batch = [] \<or> admissible mb mc batch"
    by blast
  show ?thesis
  proof (cases "batch = []")
    case True
    with fin bs show ?thesis by simp
  next
    case False
    with fin have "send_batch snk batch tr1 = (r, tr')" by simp
    from send_batch_trace[OF this] False have "tr' = tr @ (bs @ [batch])"
      using bs(1) by simp
    moreover have "\<forall>b\<in>set (bs @ [batch]). admissible mb mc b"
      using bs(2,3) False by auto
    ultimately show ?thesis by blast
  qed
qed

lemma count_entries_eq:
  "count_entries es s f = (s + int (length (filter Not es)), f + int (length (filter id es)))"
  by (induction es arbitrary: s f) simp_all

lemma tally_append:
  "tally snk tr (bs1 @ bs2) =
     (fst (tally snk tr bs1) + fst (tally snk (tr @ bs1) bs2),
      snd (tally snk tr bs1) + snd (tally snk (tr @ bs1) bs2))"
  by (induction bs1 arbitrary: tr) (simp_all split: sink_reply.splits)

lemma send_batch_tally:
  "send_batch snk b tr = (Inr (s, f), tr') \<Longrightarrow>
   s = fst (tally snk tr (if b = [] then [] else [b])) \<and>
   f = snd (tally snk tr (if b = [] then [] else [b]))"
  by (auto simp: send_batch_def count_entries_eq split: if_splits sink_reply.splits)

lemma send_loop_tally:
  "send_loop snk mb mc ps ts tf nb batch tr = (Inr (ts', tf', nb', batch'), tr') \<Longrightarrow>
   \<exists>bs. tr' = tr @ bs \<and> ts' = ts + fst (tally snk tr bs) \<and> tf' = tf + snd (tally snk tr bs)"
proof (induction ps arbitrary: ts tf nb batch tr)
  case Nil
  then show ?case by (intro exI[of _ "[]"]) simp
next
  case (Cons p ps)
  show ?case
  proof (cases "int (length (batch @ [p])) > mc \<or> estimate_batch_bytes (batch @ [p]) > mb")
    case False
    show ?thesis
      by (rule Cons.IH[OF send_loop_step_keep[OF False Cons.prems]])
  next
    case True
    from send_loop_step_close[OF True Cons.prems] obtain s f tr1 where
      sb: "send_batch snk batch tr = (Inr (s, f), tr1)" and
      lp: "send_loop snk mb mc ps (ts + s) (tf + f) (nb + 1) [p] tr1 = (Inr (ts', tf', nb', batch'), tr')"
      by auto
    from Cons.IH[OF lp] obtain bs where
      bs: "tr' = tr1 @ bs" "ts' = ts + s + fst (tally snk tr1 bs)"
          "tf' = tf + f + snd (tally snk tr1 bs)"
      by blast
    let ?b = "if batch = [] then [] else [batch]"
    have t1: "tr1 = tr @ ?b"
      using send_batch_trace[OF sb] .
    have "tr' = tr @ (?b @ bs)"
      using bs(1) t1 by simp
    moreover have "ts' = ts + fst (tally snk tr (?b @ bs))"
      using bs(2) send_batch_tally[OF sb] t1 by (simp add: tally_append)
    moreover have "tf' = tf + snd (tally snk tr (?b @ bs))"
      using bs(3) send_batch_tally[OF sb] t1 by (simp add: tally_append)
    ultimately show ?thesis by blast
  qed
qed

lemma send_with_limits_tally:
  assumes "send_with_limits snk ps mb mc tr = (Inr (s, f, b), tr')"
  shows "\<exists>bs. tr' = tr @ bs \<and> s = fst (tally snk tr bs) \<and> f = snd (tally snk tr bs)"
  using send_with_limits_cases[OF assms]
proof (elim disjE exE conjE)
  fix e assume "Inr (s, f, b) = (Inl e :: error + int \<times> int \<times> int)"
  then show ?thesis by simp
next
  fix ts tf nb batch tr1 r
  assume lp: "send_loop snk mb mc ps 0 0 0 [] tr = (Inr (ts, tf, nb, batch), tr1)"
    and fin: "if batch = [] then tr' = tr1 \<and> Inr (s, f, b) = (Inr (ts, tf, nb) :: error + int \<times> int \<times> int)
          else send_batch snk batch tr1 = (r, tr') \<and>
               (case r of Inl e \<Rightarrow> Inr (s, f, b) = (Inl e :: error + int \<times> int \<times> int)
                | Inr (s', f') \<Rightarrow> Inr (s, f, b) = (Inr (ts + s', tf + f', nb + 1) :: error + int \<times> int \<times> int))"
  from send_loop_tally[OF lp] obtain bs where
    bs: "tr1 = tr @ bs" "ts = fst (tally snk tr bs)" "tf = snd (tally snk tr bs)"
    by auto
  show ?thesis
  proof (cases "batch = []")
    case True
    with fin bs show ?thesis by simp
  next
    case False
    with fin obtain s' f' where
      sb: "send_batch snk batch tr1 = (Inr (s', f'), tr')" and
      eq: "s = ts + s'" "f = tf + f'"
      by (cases r) auto
    have "tr' = tr @ (bs @ [batch])"
      using send_batch_trace[OF sb] False bs(1) by simp
    moreover have "s = fst (tally snk tr (bs @ [batch]))" "f = snd (tally snk tr (bs @ [batch]))"
      using send_batch_tally[OF sb] False bs eq by (simp_all add: tally_append)
    ultimately show ?thesis by blast
  qed
qed

lemma send_loop_count:
  "send_loop snk mb mc ps ts tf nb batch tr = (Inr (ts', tf', nb', batch'), tr') \<Longrightarrow>
   batch \<noteq> [] \<Longrightarrow>
   nb' - nb = int (length tr') - int (length tr) \<and> batch' \<noteq> []"
proof (induction ps arbitrary: ts tf nb batch tr)
  case Nil
  then show ?case by simp
next
  case (Cons p ps)
  show ?case
  proof (cases "int (length (batch @ [p])) > mc \<or> estimate_batch_bytes (batch @ [p]) > mb")
    case False
    show ?thesis
      by (rule Cons.IH[OF send_loop_step_keep[OF False Cons.prems(1)]]) simp
  next
    case True
    from send_loop_step_close[OF True Cons.prems(1)] obtain s f tr1 where
      sb: "send_batch snk batch tr = (Inr (s, f), tr1)" and
      lp: "send_loop snk mb mc ps (ts + s) (tf + f) (nb + 1) [p] tr1 = (Inr (ts', tf', nb', batch'), tr')"
      by auto
    have "nb' - (nb + 1) = int (length tr') - int (length tr1) \<and> batch' \<noteq> []"
      by (rule Cons.IH[OF lp]) simp
    moreover have "tr1 = tr @ [batch]"
      using send_batch_trace[OF sb] Cons.prems(2) by simp
    ultimately show ?thesis by simp
  qed
qed

lemma send_batch_no_raise:
  "\<forall>h b. snk h b \<noteq> Raises \<Longrightarrow> \<exists>sf tr'. send_batch snk b tr = (Inr sf, tr')"
  by (cases "snk tr b") (auto simp: send_batch_def)

lemma send_loop_no_raise:
  "\<forall>h b. snk h b \<noteq> Raises \<Longrightarrow> \<exists>r tr'. send_loop snk mb mc ps ts tf nb batch tr = (Inr r, tr')"
proof (induction ps arbitrary: ts tf nb batch tr)
  case Nil
  then show ?case by simp
next
  case (Cons p ps)
  from send_batch_no_raise[OF Cons.prems, of batch tr] obtain s f tr1 where
    "send_batch snk batch tr = (Inr (s, f), tr1)" by auto
  with Cons.IH[OF Cons.prems] show ?case
    by (simp add: Let_def)
qed

lemma send_with_limits_no_raise:
  assumes "\<forall>h b. snk h b \<noteq> Raises"
  shows "\<exists>r tr'. send_with_limits snk ps mb mc tr = (Inr r, tr')"
proof -
  from send_loop_no_raise[OF assms, of mb mc ps 0 0 0 "[]" tr] obtain ts tf nb batch tr1 where
    lp: "send_loop snk mb mc ps 0 0 0 [] tr = (Inr (ts, tf, nb, batch), tr1)"
    by auto
  from send_batch_no_raise[OF assms, of batch tr1] obtain s f tr2 where
    "send_batch snk batch tr1 = (Inr (s, f), tr2)" by auto
  with lp show ?thesis
    by (simp add: send_with_limits_def)
qed

lemma replies_ok_append:
  "replies_ok snk tr (bs1 @ bs2) = (replies_ok snk tr bs1 \<and> replies_ok snk (tr @ bs1) bs2)"
  by (induction bs1 arbitrary: tr) simp_all

lemma send_batch_ok_reply:
  "send_batch snk b tr = (Inr sf, tr') \<Longrightarrow> replies_ok snk tr (if b = [] then [] else [b])"
  by (auto simp: send_batch_def split: if_splits sink_reply.splits)

lemma send_batch_err_reply:
  "send_batch snk b tr = (Inl e, tr') \<Longrightarrow>
   b \<noteq> [] \<and> snk tr b = Raises \<and> tr' = tr @ [b] \<and> e = SinkUnavailableError"
  by (auto simp: send_batch_def split: if_splits sink_reply.splits)

lemma send_loop_replies_ok:
  "send_loop snk mb mc ps ts tf nb batch tr = (Inr r, tr') \<Longrightarrow>
   \<exists>bs. tr' = tr @ bs \<and> replies_ok snk tr bs"
proof (induction ps arbitrary: ts tf nb batch tr)
  case Nil
  then show ?case by (intro exI[of _ "[]"]) simp
next
  case (Cons p ps)
  show ?case
  proof (cases "int (length (batch @ [p])) > mc \<or> estimate_batch_bytes (batch @ [p]) > mb")
    case False
    show ?thesis
      by (rule Cons.IH[OF send_loop_step_keep[OF False Cons.prems]])
  next
    case True
    from send_loop_step_close[OF True Cons.prems] obtain s f tr1 where
      sb: "send_batch snk batch tr = (Inr (s, f), tr1)" and
      lp: "send_loop snk mb mc ps (ts + s) (tf + f) (nb + 1) [p] tr1 = (Inr r, tr')"
      by auto
    from Cons.IH[OF lp] obtain bs where bs: "tr' = tr1 @ bs" "replies_ok snk tr1 bs"
      by blast
    let ?b = "if batch = [] then [] else [batch]"
    have t1: "tr1 = tr @ ?b"
      using send_batch_trace[OF sb] .
    have "tr' = tr @ (?b @ bs)"
      using bs(1) t1 by simp
    moreover have "replies_ok snk tr (?b @ bs)"
      using send_batch_ok_reply[OF sb] bs(2) t1 by (simp add: replies_ok_append)
    ultimately show ?thesis by blast
  qed
qed

lemma send_loop_raises:
  "send_loop snk mb mc ps ts tf nb batch tr = (Inl e, tr') \<Longrightarrow>
   e = SinkUnavailableError \<and>
   (\<exists>bs b. tr' = tr @ bs @ [b] \<and> replies_ok snk tr bs \<and> snk (tr @ bs) b = Raises)"
proof (induction ps arbitrary: ts tf nb batch tr)
  case Nil
  then show ?case by simp
next
  case (Cons p ps)
  show ?case
  proof (cases "int (length (batch @ [p])) > mc \<or> estimate_batch_bytes (batch @ [p]) > mb")
    case False
    show ?thesis
      by (rule Cons.IH[OF send_loop_step_keep[OF False Cons.prems]])
  next
    case True
    from send_loop_step_close[OF True Cons.prems] show ?thesis
    proof (elim disjE exE conjE)
      fix e' assume sb: "send_batch snk batch tr = (Inl e', tr')" and e: "Inl e = (Inl e' :: error + int \<times> int \<times> int \<times> payload list)"
      from send_batch_err_reply[OF sb] e
      have "e = SinkUnavailableError" "tr' = tr @ [] @ [batch]" "replies_ok snk tr []"
        "snk (tr @ []) batch = Raises"
        by simp_all
      then show ?thesis by blast
    next
      fix s f tr1
      assume sb: "send_batch snk batch tr = (Inr (s, f), tr1)"
        and lp: "send_loop snk mb mc ps (ts + s) (tf + f) (nb + 1) [p] tr1 = (Inl e, tr')"
      from Cons.IH[OF lp] obtain bs b where
        bs: "e = SinkUnavailableError" "tr' = tr1 @ bs @ [b]" "replies_ok snk tr1 bs"
          "snk (tr1 @ bs) b = Raises"
        by blast
      let ?b = "if batch = [] then [] else [batch]"
      have t1: "tr1 = tr @ ?b"
        using send_batch_trace[OF sb] .
      have "tr' = tr @ (?b @ bs) @ [b]"
        using bs(2) t1 by simp
      moreover have "replies_ok snk tr (?b @ bs)"
        using send_batch_ok_reply[OF sb] bs(3) t1 by (simp add: replies_ok_append)
      moreover have "snk (tr @ (?b @ bs)) b = Raises"
        using bs(4) t1 by simp
      ultimately show ?thesis using bs(1) by blast
    qed
  qed
qed

lemma send_with_limits_replies_ok:
  assumes "send_with_limits snk ps mb mc tr = (Inr r, tr')"
  shows "\<exists>bs. tr' = tr @ bs \<and> replies_ok snk tr bs"
  using send_with_limits_cases[OF assms]
proof (elim disjE exE conjE)
  fix e assume "Inr r = (Inl e :: error + int \<times> int \<times> int)"
  then show ?thesis by simp
next
  fix ts tf nb batch tr1 r'
  assume lp: "send_loop snk mb mc ps 0 0 0 [] tr = (Inr (ts, tf, nb, batch), tr1)"
    and fin: "if batch = [] then tr' = tr1 \<and> Inr r = (Inr (ts, tf, nb) :: error + int \<times> int \<times> int)
          else send_batch snk batch tr1 = (r', tr') \<and>
               (case r' of Inl e \<Rightarrow> Inr r = (Inl e :: error + int \<times> int \<times> int)
                | Inr (s', f') \<Rightarrow> Inr r = (Inr (ts + s', tf + f', nb + 1) :: error + int \<times> int \<times> int))"
  from send_loop_replies_ok[OF lp] obtain bs where
    bs: "tr1 = tr @ bs" "replies_ok snk tr bs"
    by auto
  show ?thesis
  proof (cases "batch = []")
    case True
    with fin bs show ?thesis by simp
  next
    case False
    with fin obtain sf where sb: "send_batch snk batch tr1 = (Inr sf, tr')"
      by (cases r') auto
    have "tr' = tr @ (bs @ [batch])"
      using send_batch_trace[OF sb] False bs(1) by simp
    moreover have "replies_ok snk tr (bs @ [batch])"
      using send_batch_ok_reply[OF sb] False bs by (simp add: replies_ok_append)
    ultimately show ?thesis by blast
  qed
qed

lemma send_with_limits_raises:
  assumes "send_with_limits snk ps mb mc tr = (Inl e, tr')"
  shows "e = SinkUnavailableError \<and>
   (\<exists>bs b. tr' = tr @ bs @ [b] \<and> replies_ok snk tr bs \<and> snk (tr @ bs) b = Raises)"
  using send_with_limits_cases[OF assms]
proof (elim disjE exE conjE)
  fix e' assume "send_loop snk mb mc ps 0 0 0 [] tr = (Inl e', tr')"
    and "Inl e = (Inl e' :: error + int \<times> int \<times> int)"
  with send_loop_raises[of snk mb mc ps 0 0 0 "[]" tr e tr'] show ?thesis by simp
next
  fix ts tf nb batch tr1 r'
  assume lp: "send_loop snk mb mc ps 0 0 0 [] tr = (Inr (ts, tf, nb, batch), tr1)"
    and fin: "if batch = [] then tr' = tr1 \<and> Inl e = (Inr (ts, tf, nb) :: error + int \<times> int \<times> int)
          else send_batch snk batch tr1 = (r', tr') \<and>
               (case r' of Inl e' \<Rightarrow> Inl e = (Inl e' :: error + int \<times> int \<times> int)
                | Inr (s', f') \<Rightarrow> Inl e = (Inr (ts + s', tf + f', nb + 1) :: error + int \<times> int \<times> int))"
  from send_loop_replies_ok[OF lp] obtain bs where
    bs: "tr1 = tr @ bs" "replies_ok snk tr bs"
    by auto
  from fin have ne: "batch \<noteq> []" by (cases "batch = []") auto
  with fin have sb: "send_batch snk batch tr1 = (Inl e, tr')"
    by (cases r') auto
  from send_batch_err_reply[OF sb] bs
  have "e = SinkUnavailableError" "tr' = tr @ bs @ [batch]" "snk (tr @ bs) batch = Raises"
    by simp_all
  with bs(2) show ?thesis by blast
qed

lemma send_with_limits_trace_any:
  assumes "send_with_limits snk ps mb mc tr = (res, tr')"
  shows "\<exists>bs rest. tr' = tr @ bs \<and> [] \<notin> set bs \<and> concat bs @ rest = ps"
proof (cases res)
  case (Inr r)
  with send_with_limits_trace_ok[of snk ps mb mc tr r tr'] assms
  obtain bs where "tr' = tr @ bs" "[] \<notin> set bs" "concat bs @ [] = ps" by auto
  then show ?thesis by blast
next
  case (Inl e)
  from send_with_limits_cases[OF assms] show ?thesis
  proof (elim disjE exE conjE)
    fix e' assume "send_loop snk mb mc ps 0 0 0 [] tr = (Inl e', tr')"
    from send_loop_trace_err[OF this] show ?thesis by simp
  next
    fix ts tf nb batch tr1 r'
    assume lp: "send_loop snk mb mc ps 0 0 0 [] tr = (Inr (ts, tf, nb, batch), tr1)"
      and fin: "if batch = [] then tr' = tr1 \<and> res = Inr (ts, tf, nb)
          else send_batch snk batch tr1 = (r', tr') \<and>
               (case r' of Inl e' \<Rightarrow> res = Inl e'
                | Inr (s', f') \<Rightarrow> res = Inr (ts + s', tf + f', nb + 1))"
    from send_loop_trace_ok[OF lp] obtain bs where
      bs: "tr1 = tr @ bs" "[] \<notin> set bs" "concat bs @ batch = ps"
      by auto
    from fin Inl have ne: "batch \<noteq> []" by (cases "batch = []") auto
    with fin have "send_batch snk batch tr1 = (r', tr')" by simp
    from send_batch_trace[OF this] ne bs(1) have "tr' = tr @ (bs @ [batch])" by simp
    moreover have "[] \<notin> set (bs @ [batch])" using bs(2) ne by auto
    moreover have "concat (bs @ [batch]) @ [] = ps" using bs(3) by simp
    ultimately show ?thesis by blast
  qed
qed

lemma send_with_limits_dispatches:
  assumes "send_with_limits snk ps mb mc tr = (res, tr')" and "ps \<noteq> []"
  shows "tr' \<noteq> tr"
proof (cases res)
  case (Inr r)
  with send_with_limits_trace_ok[of snk ps mb mc tr r tr'] assms show ?thesis by auto
next
  case (Inl e)
  with send_with_limits_raises[of snk ps mb mc tr e tr'] assms show ?thesis by auto
qed

subsection \<open>Evaluation\<close>

lemma estimate_Nil: "estimate_batch_bytes [] = 0"
  by (simp add: estimate_batch_bytes_def)

lemma estimate_Cons:
  "estimate_batch_bytes (m # ms) =
     4 * ((int (length m) + 2) div 3) + 50 + estimate_batch_bytes ms"
  by (simp add: estimate_batch_bytes_def encode_utf8_def length_b64encode zdiv_int)

lemmas eval_sender =
  send_with_limits_def send_with_size_limit_def send_batch_def Let_def
  estimate_Nil estimate_Cons

lemma greedy_Cons:
  "greedy mb mc (b # bs) =
     (case bs of [] \<Rightarrow> True | b2 # r \<Rightarrow> \<not> fits mb mc (b @ take 1 b2) \<and> greedy mb mc bs)"
  by (cases bs) simp_all

lemma send_loop_greedy:
  "send_loop snk mb mc ps ts tf nb batch tr = (Inr (ts', tf', nb', batch'), tr') \<Longrightarrow>
   \<exists>bs. tr' = tr @ bs \<and> greedy mb mc (bs @ [batch']) \<and>
        (\<exists>more. hd (bs @ [batch']) = batch @ more)"
proof (induction ps arbitrary: ts tf nb batch tr)
  case Nil
  then have "tr' = tr @ []" "greedy mb mc ([] @ [batch'])" "hd ([] @ [batch']) = batch @ []"
    by simp_all
  then show ?case by blast
next
  case (Cons p ps)
  show ?case
  proof (cases "int (length (batch @ [p])) > mc \<or> estimate_batch_bytes (batch @ [p]) > mb")
    case False
    from Cons.IH[OF send_loop_step_keep[OF False Cons.prems]] obtain bs more where
      "tr' = tr @ bs" "greedy mb mc (bs @ [batch'])" "hd (bs @ [batch']) = batch @ ([p] @ more)"
      by auto
    then show ?thesis by blast
  next
    case True
    from send_loop_step_close[OF True Cons.prems] obtain s f tr1 where
      sb: "send_batch snk batch tr = (Inr (s, f), tr1)" and
      lp: "send_loop snk mb mc ps (ts + s) (tf + f) (nb + 1) [p] tr1 = (Inr (ts', tf', nb', batch'), tr')"
      by auto
    from Cons.IH[OF lp] obtain bs more where
      bs: "tr' = tr1 @ bs" "greedy mb mc (bs @ [batch'])" "hd (bs @ [batch']) = [p] @ more"
      by blast
    have t1: "tr1 = tr @ (if batch = [] then [] else [batch])"
      using send_batch_trace[OF sb] .
    show ?thesis
    proof (cases "batch = []")
      case True
      have "tr' = tr @ bs" using bs(1) t1 True by simp
      moreover have "hd (bs @ [batch']) = batch @ ([p] @ more)" using bs(3) True by simp
      ultimately show ?thesis using bs(2) by blast
    next
      case False
      obtain b2 r where br: "bs @ [batch'] = b2 # r"
        by (cases "bs @ [batch']") simp_all
      with bs(3) have b2: "take 1 b2 = [p]" by simp
      have nf: "\<not> fits mb mc (batch @ [p])"
        using True by (auto simp: fits_def)
      have "greedy mb mc (batch # (bs @ [batch']))"
        using bs(2) br b2 nf by simp
      then have "greedy mb mc ((batch # bs) @ [batch'])" by simp
      moreover have "tr' = tr @ (batch # bs)" using bs(1) t1 False by simp
      moreover have "hd ((batch # bs) @ [batch']) = batch @ []" by simp
      ultimately show ?thesis by blast
    qed
  qed
qed

lemma send_loop_final_nonempty:
  assumes "send_loop snk mb mc ps ts tf nb batch tr = (Inr (ts', tf', nb', batch'), tr')"
    and "ps \<noteq> [] \<or> batch \<noteq> []"
  shows "batch' \<noteq> []"
proof (cases ps)
  case Nil
  with assms show ?thesis by simp
next
  case (Cons p ps')
  show ?thesis
  proof (cases "int (length (batch @ [p])) > mc \<or> estimate_batch_bytes (batch @ [p]) > mb")
    case False
    from send_loop_step_keep[OF False assms(1)[unfolded Cons]]
    show ?thesis by (rule send_loop_count[THEN conjunct2]) simp
  next
    case True
    from send_loop_step_close[OF True assms(1)[unfolded Cons]] obtain s f tr1 where
      "send_loop snk mb mc ps' (ts + s) (tf + f) (nb + 1) [p] tr1 = (Inr (ts', tf', nb', batch'), tr')"
      by auto
    then show ?thesis by (rule send_loop_count[THEN conjunct2]) simp
  qed
qed

lemma send_with_limits_greedy:
  assumes "send_with_limits snk ps mb mc tr = (Inr r, tr')"
  shows "\<exists>bs. tr' = tr @ bs \<and> greedy mb mc bs"
  using send_with_limits_cases[OF assms]
proof (elim disjE exE conjE)
  fix e assume "Inr r = (Inl e :: error + int \<times> int \<times> int)"
  then show ?thesis by simp
next
  fix ts tf nb batch tr1 r'
  assume lp: "send_loop snk mb mc ps 0 0 0 [] tr = (Inr (ts, tf, nb, batch), tr1)"
    and fin: "if batch = [] then tr' = tr1 \<and> Inr r = (Inr (ts, tf, nb) :: error + int \<times> int \<times> int)
          else send_batch snk batch tr1 = (r', tr') \<and>
               (case r' of Inl e \<Rightarrow> Inr r = (Inl e :: error + int \<times> int \<times> int)
                | Inr (s', f') \<Rightarrow> Inr r = (Inr (ts + s', tf + f', nb + 1) :: error + int \<times> int \<times> int))"
  from send_loop_greedy[OF lp] obtain bs where
    bs: "tr1 = tr @ bs" "greedy mb mc (bs @ [batch])"
    by auto
  from send_loop_trace_ok[OF lp] bs(1) have cc: "concat bs @ batch = ps" "[] \<notin> set bs"
    by auto
  show ?thesis
  proof (cases "batch = []")
    case True
    with send_loop_final_nonempty[OF lp] have "ps = []" by auto
    with lp bs(1) have "bs = []" by simp
    with fin bs True show ?thesis by simp
  next
    case False
    with fin have "send_batch snk batch tr1 = (r', tr')" by simp
    from send_batch_trace[OF this] False have "tr' = tr @ (bs @ [batch])"
      using bs(1) by simp
    with bs(2) show ?thesis by blast
  qed
qed

lemma flush_if_needed_skip:
  "buf hb = [] \<or> \<not> triggered force hb \<Longrightarrow>
   flush_if_needed snk force hb tr = (Inr (), hb, tr)"
  by (auto simp: flush_if_needed_def triggered_def)

lemma flush_if_needed_err:
  "buf hb \<noteq> [] \<Longrightarrow> triggered force hb \<Longrightarrow>
   send_with_limits snk (buf hb) (max_bytes hb) (max_count hb) tr = (Inl e, tr') \<Longrightarrow>
   flush_if_needed snk force hb tr = (Inl e, hb, tr')"
  by (auto simp: flush_if_needed_def triggered_def)

lemma flush_if_needed_ok:
  "buf hb \<noteq> [] \<Longrightarrow> triggered force hb \<Longrightarrow>
   send_with_limits snk (buf hb) (max_bytes hb) (max_count hb) tr = (Inr (s, f, b), tr') \<Longrightarrow>
   flush_if_needed snk force hb tr =
     (Inr (), hb\<lparr>sent := sent hb + s, failed := failed hb + f,
                   batches := batches hb + b, buf := []\<rparr>, tr')"
  by (auto simp: flush_if_needed_def triggered_def)

lemma eval_buf: "buf (hb\<lparr>buf := xs\<rparr>) = xs"
  by simp

lemma flush_if_needed_trace:
  assumes "flush_if_needed snk force hb tr = (res, hb', tr')"
  shows "(tr' \<noteq> tr) = (buf hb \<noteq> [] \<and> triggered force hb)"
proof (cases "buf hb = [] \<or> \<not> triggered force hb")
  case True
  from flush_if_needed_skip[OF True, of snk tr] assms True show ?thesis by auto
next
  case False
  then have ne: "buf hb \<noteq> []" and tg: "triggered force hb" by auto
  obtain r tr1 where sw: "send_with_limits snk (buf hb) (max_bytes hb) (max_count hb) tr = (r, tr1)"
    by (cases "send_with_limits snk (buf hb) (max_bytes hb) (max_count hb) tr")
  from send_with_limits_dispatches[OF sw ne] have d: "tr1 \<noteq> tr" .
  have "tr' = tr1"
  proof (cases r)
    case (Inl e)
    with flush_if_needed_err[OF ne tg, of snk tr e tr1] sw assms show ?thesis by simp
  next
    case (Inr sfb)
    obtain s f b where "sfb = (s, f, b)" by (cases sfb)
    with Inr flush_if_needed_ok[OF ne tg, of snk tr s f b tr1] sw assms show ?thesis by simp
  qed
  with d ne tg show ?thesis by simp
qed

section \<open>The main loop\<close>

lemma undecodable_Cons:
  "undecodable (e # es) = (if utf8_valid e then undecodable es else e # undecodable es)"
  by (simp add: undecodable_def)

lemma process_event_bad:
  "decode_utf8 event = Inl e \<Longrightarrow>
   process_event snk event st tr = (st\<lparr>error_count := error_count st + 1\<rparr>, tr)"
  by (simp add: process_event_def)

lemma process_event_blank:
  "utf8_valid event \<Longrightarrow> event_payload event = None \<Longrightarrow>
   process_event snk event st tr = (st, tr)"
  by (auto simp: process_event_def event_payload_def decode_utf8_def split: if_splits)

lemma process_event_add:
  "event_payload event = Some body \<Longrightarrow>
   process_event snk event st tr =
     (case add snk body (buffer st) tr of
        (Inl e, hb, tr') \<Rightarrow> (st\<lparr>buffer := hb, error_count := error_count st + 1\<rparr>, tr')
      | (Inr u, hb, tr') \<Rightarrow> (st\<lparr>buffer := hb, processed_count := processed_count st + 1\<rparr>, tr'))"
  by (auto simp: process_event_def event_payload_def split: sum.splits if_splits)

lemma event_payload_valid: "event_payload event = Some body \<Longrightarrow> utf8_valid event"
  by (auto simp: event_payload_def decode_utf8_def split: if_splits)

lemma main_loop_append:
  "main_loop snk (xs @ ys) st tr =
     (case main_loop snk xs st tr of (st1, tr1) \<Rightarrow> main_loop snk ys st1 tr1)"
  by (induction xs arbitrary: st tr) (simp_all split: prod.splits)

lemma process_event_counts:
  assumes "process_event snk event st tr = (st', tr')"
  shows "processed_count st' + error_count st'
           = processed_count st + error_count st
             + int (length (accepted [event])) + int (length (undecodable [event])) \<and>
         error_count st + int (length (undecodable [event])) \<le> error_count st' \<and>
         processed_count st \<le> processed_count st'"
proof (cases "utf8_valid event")
  case False
  then have "decode_utf8 event = Inl UnicodeDecodeError" "event_payload event = None"
    by (simp_all add: decode_utf8_def event_payload_def)
  with process_event_bad[of event UnicodeDecodeError snk st tr] assms False show ?thesis
    by (auto simp: undecodable_def)
next
  case True
  show ?thesis
  proof (cases "event_payload event")
    case None
    with process_event_blank[OF True None, of snk st tr] assms True show ?thesis
      by (auto simp: undecodable_def)
  next
    case (Some body)
    obtain r hb tr1 where a: "add snk body (buffer st) tr = (r, hb, tr1)"
      by (cases "add snk body (buffer st) tr")
    with process_event_add[OF Some, of snk st tr] assms True Some show ?thesis
      by (cases r) (auto simp: undecodable_def)
  qed
qed

lemma accepted_append1: "accepted (e # es) = accepted [e] @ accepted es"
  by (simp split: option.splits)

lemma undecodable_append1: "undecodable (e # es) = undecodable [e] @ undecodable es"
  by (simp add: undecodable_def)

lemma main_loop_counts:
  "main_loop snk events st tr = (st', tr') \<Longrightarrow>
   processed_count st' + error_count st'
     = processed_count st + error_count st
       + int (length (accepted events)) + int (length (undecodable events)) \<and>
   error_count st + int (length (undecodable events)) \<le> error_count st' \<and>
   processed_count st \<le> processed_count st'"
proof (induction events arbitrary: st tr)
  case Nil
  then show ?case by (auto simp: undecodable_def)
next
  case (Cons e es)
  obtain st1 tr1 where p: "process_event snk e st tr = (st1, tr1)"
    by (cases "process_event snk e st tr")
  with Cons.prems have "main_loop snk es st1 tr1 = (st', tr')" by simp
  from Cons.IH[OF this] process_event_counts[OF p] show ?case
    unfolding accepted_append1[of e es] undecodable_append1[of e es] by simp
qed

lemma tally_nonneg: "0 \<le> fst (tally snk tr bs) \<and> 0 \<le> snd (tally snk tr bs)"
  by (induction bs arbitrary: tr) (auto split: sink_reply.splits)

lemma flush_if_needed_result:
  assumes "flush_if_needed snk force hb tr = (Inr u, hb', tr')"
  shows "\<exists>bs. tr' = tr @ bs \<and> concat bs @ buf hb' = buf hb \<and>
           sent hb' = sent hb + fst (tally snk tr bs) \<and>
           failed hb' = failed hb + snd (tally snk tr bs)"
proof (cases "buf hb = [] \<or> \<not> triggered force hb")
  case True
  from flush_if_needed_skip[OF True, of snk tr] assms
  have "tr' = tr @ []" "concat [] @ buf hb' = buf hb"
    "sent hb' = sent hb + fst (tally snk tr [])" "failed hb' = failed hb + snd (tally snk tr [])"
    by simp_all
  then show ?thesis by blast
next
  case False
  then have ne: "buf hb \<noteq> []" and tg: "triggered force hb" by auto
  obtain r tr1 where sw: "send_with_limits snk (buf hb) (max_bytes hb) (max_count hb) tr = (r, tr1)"
    by (cases "send_with_limits snk (buf hb) (max_bytes hb) (max_count hb) tr")
  show ?thesis
  proof (cases r)
    case (Inl e)
    with flush_if_needed_err[OF ne tg, of snk tr e tr1] sw assms show ?thesis by simp
  next
    case (Inr sfb)
    obtain s f b where "sfb = (s, f, b)" by (cases sfb)
    with Inr sw have sw': "send_with_limits snk (buf hb) (max_bytes hb) (max_count hb) tr
        = (Inr (s, f, b), tr1)" by simp
    from flush_if_needed_ok[OF ne tg sw'] assms
    have hb': "hb' = hb\<lparr>sent := sent hb + s, failed := failed hb + f,
                     batches := batches hb + b, buf := []\<rparr>" and t: "tr' = tr1"
      by simp_all
    from send_with_limits_trace_ok[OF sw'] obtain bs where
      bs: "tr1 = tr @ bs" "concat bs = buf hb" by blast
    from send_with_limits_tally[OF sw'] obtain bs' where
      bs': "tr1 = tr @ bs'" "s = fst (tally snk tr bs')" "f = snd (tally snk tr bs')" by blast
    from bs(1) bs'(1) have "bs' = bs" by simp
    with bs bs' hb' t have "tr' = tr @ bs" "concat bs @ buf hb' = buf hb"
      "sent hb' = sent hb + fst (tally snk tr bs)" "failed hb' = failed hb + snd (tally snk tr bs)"
      by simp_all
    then show ?thesis by blast
  qed
qed

lemma flush_if_needed_raise:
  assumes "flush_if_needed snk force hb tr = (Inl e, hb', tr')"
  shows "hb' = hb"
proof (cases "buf hb = [] \<or> \<not> triggered force hb")
  case True
  from flush_if_needed_skip[OF True, of snk tr] assms show ?thesis by simp
next
  case False
  then have ne: "buf hb \<noteq> []" and tg: "triggered force hb" by auto
  obtain r tr1 where sw: "send_with_limits snk (buf hb) (max_bytes hb) (max_count hb) tr = (r, tr1)"
    by (cases "send_with_limits snk (buf hb) (max_bytes hb) (max_count hb) tr")
  show ?thesis
  proof (cases r)
    case (Inl e1)
    with flush_if_needed_err[OF ne tg, of snk tr e1 tr1] sw assms show ?thesis by simp
  next
    case (Inr sfb)
    obtain s f b where "sfb = (s, f, b)" by (cases sfb)
    with Inr flush_if_needed_ok[OF ne tg, of snk tr s f b tr1] sw assms show ?thesis by simp
  qed
qed

lemma flush_if_needed_no_raise:
  assumes "\<forall>h b. snk h b \<noteq> Raises"
  shows "\<exists>hb' tr'. flush_if_needed snk force hb tr = (Inr (), hb', tr')"
proof -
  from send_with_limits_no_raise[OF assms, of "buf hb" "max_bytes hb" "max_count hb" tr]
  obtain s f b tr' where
    "send_with_limits snk (buf hb) (max_bytes hb) (max_count hb) tr = (Inr (s, f, b), tr')"
    by auto
  then show ?thesis
    by (simp add: flush_if_needed_def)
qed

lemma flush_if_needed_failed_mono:
  assumes "flush_if_needed snk force hb tr = (r, hb', tr')"
  shows "failed hb \<le> failed hb'"
proof (cases r)
  case (Inl e)
  with flush_if_needed_raise[of snk force hb tr e hb' tr'] assms show ?thesis by simp
next
  case (Inr u)
  with flush_if_needed_result[of snk force hb tr u hb' tr'] assms tally_nonneg[of snk tr]
  show ?thesis by auto
qed

lemma process_event_failed_mono:
  assumes "process_event snk event st tr = (st', tr')"
  shows "failed (buffer st) \<le> failed (buffer st')"
proof (cases "event_payload event")
  case None
  show ?thesis
  proof (cases "utf8_valid event")
    case True
    from process_event_blank[OF True None, of snk st tr] assms show ?thesis by simp
  next
    case False
    then have "decode_utf8 event = Inl UnicodeDecodeError" by (simp add: decode_utf8_def)
    from process_event_bad[OF this, of snk st tr] assms show ?thesis by auto
  qed
next
  case (Some body)
  obtain r hb tr1 where a: "add snk body (buffer st) tr = (r, hb, tr1)"
    by (cases "add snk body (buffer st) tr")
  then have "flush_if_needed snk False ((buffer st)\<lparr>buf := buf (buffer st) @ [body]\<rparr>) tr
      = (r, hb, tr1)" by (simp add: add_def)
  from flush_if_needed_failed_mono[OF this] have "failed (buffer st) \<le> failed hb" by simp
  with process_event_add[OF Some, of snk st tr] a assms show ?thesis
    by (cases r) auto
qed

lemma main_loop_failed_mono:
  "main_loop snk events st tr = (st', tr') \<Longrightarrow> failed (buffer st) \<le> failed (buffer st')"
proof (induction events arbitrary: st tr)
  case Nil
  then show ?case by simp
next
  case (Cons e es)
  obtain st1 tr1 where p: "process_event snk e st tr = (st1, tr1)"
    by (cases "process_event snk e st tr")
  with Cons.prems have "main_loop snk es st1 tr1 = (st', tr')" by simp
  from Cons.IH[OF this] process_event_failed_mono[OF p] show ?case by simp
qed

lemma process_event_no_raise:
  assumes nr: "\<forall>h b. snk h b \<noteq> Raises" and p: "process_event snk event st tr = (st', tr')"
  shows "\<exists>bs. tr' = tr @ bs \<and>
           concat bs @ buf (buffer st') = buf (buffer st) @ accepted [event] \<and>
           sent (buffer st') = sent (buffer st) + fst (tally snk tr bs) \<and>
           failed (buffer st') = failed (buffer st) + snd (tally snk tr bs) \<and>
           processed_count st' = processed_count st + int (length (accepted [event])) \<and>
           error_count st' = error_count st + int (length (undecodable [event]))"
proof (cases "event_payload event")
  case None
  have "tr' = tr @ [] \<and>
           concat [] @ buf (buffer st') = buf (buffer st) @ accepted [event] \<and>
           sent (buffer st') = sent (buffer st) + fst (tally snk tr []) \<and>
           failed (buffer st') = failed (buffer st) + snd (tally snk tr []) \<and>
           processed_count st' = processed_count st + int (length (accepted [event])) \<and>
           error_count st' = error_count st + int (length (undecodable [event]))"
  proof (cases "utf8_valid event")
    case True
    from process_event_blank[OF True None, of snk st tr] p None True show ?thesis
      by (auto simp: undecodable_def)
  next
    case False
    then have "decode_utf8 event = Inl UnicodeDecodeError" by (simp add: decode_utf8_def)
    from process_event_bad[OF this, of snk st tr] p None False show ?thesis
      by (auto simp: undecodable_def)
  qed
  then show ?thesis by blast
next
  case (Some body)
  let ?hb = "(buffer st)\<lparr>buf := buf (buffer st) @ [body]\<rparr>"
  from flush_if_needed_no_raise[OF nr, of False ?hb tr] obtain hb tr1 where
    fl: "flush_if_needed snk False ?hb tr = (Inr (), hb, tr1)" by blast
  then have a: "add snk body (buffer st) tr = (Inr (), hb, tr1)"
    by (simp add: add_def)
  with process_event_add[OF Some, of snk st tr] p
  have st': "st' = st\<lparr>buffer := hb, processed_count := processed_count st + 1\<rparr>" "tr' = tr1"
    by simp_all
  from flush_if_needed_result[OF fl] obtain bs where
    bs: "tr1 = tr @ bs" "concat bs @ buf hb = buf ?hb"
      "sent hb = sent ?hb + fst (tally snk tr bs)" "failed hb = failed ?hb + snd (tally snk tr bs)"
    by blast
  from event_payload_valid[OF Some] have v: "undecodable [event] = []"
    by (simp add: undecodable_def)
  from bs st' Some v
  have "tr' = tr @ bs \<and>
           concat bs @ buf (buffer st') = buf (buffer st) @ accepted [event] \<and>
           sent (buffer st') = sent (buffer st) + fst (tally snk tr bs) \<and>
           failed (buffer st') = failed (buffer st) + snd (tally snk tr bs) \<and>
           processed_count st' = processed_count st + int (length (accepted [event])) \<and>
           error_count st' = error_count st + int (length (undecodable [event]))"
    by simp
  then show ?thesis by blast
qed

lemma main_loop_no_raise:
  assumes nr: "\<forall>h b. snk h b \<noteq> Raises"
  shows "main_loop snk events st tr = (st', tr') \<Longrightarrow>
         \<exists>bs. tr' = tr @ bs \<and>
           concat bs @ buf (buffer st') = buf (buffer st) @ accepted events \<and>
           sent (buffer st') = sent (buffer st) + fst (tally snk tr bs) \<and>
           failed (buffer st') = failed (buffer st) + snd (tally snk tr bs) \<and>
           processed_count st' = processed_count st + int (length (accepted events)) \<and>
           error_count st' = error_count st + int (length (undecodable events))"
proof (induction events arbitrary: st tr)
  case Nil
  then have "tr' = tr @ [] \<and>
           concat [] @ buf (buffer st') = buf (buffer st) @ accepted [] \<and>
           sent (buffer st') = sent (buffer st) + fst (tally snk tr []) \<and>
           failed (buffer st') = failed (buffer st) + snd (tally snk tr []) \<and>
           processed_count st' = processed_count st + int (length (accepted [])) \<and>
           error_count st' = error_count st + int (length (undecodable []))"
    by (simp add: undecodable_def)
  then show ?case by blast
next
  case (Cons e es)
  obtain st1 tr1 where p: "process_event snk e st tr = (st1, tr1)"
    by (cases "process_event snk e st tr")
  with Cons.prems have ml: "main_loop snk es st1 tr1 = (st', tr')" by simp
  from process_event_no_raise[OF nr p] obtain bs1 where
    b1: "tr1 = tr @ bs1"
      "concat bs1 @ buf (buffer st1) = buf (buffer st) @ accepted [e]"
      "sent (buffer st1) = sent (buffer st) + fst (tally snk tr bs1)"
      "failed (buffer st1) = failed (buffer st) + snd (tally snk tr bs1)"
      "processed_count st1 = processed_count st + int (length (accepted [e]))"
      "error_count st1 = error_count st + int (length (undecodable [e]))"
    by blast
  from Cons.IH[OF ml] obtain bs2 where
    b2: "tr' = tr1 @ bs2"
      "concat bs2 @ buf (buffer st') = buf (buffer st1) @ accepted es"
      "sent (buffer st') = sent (buffer st1) + fst (tally snk tr1 bs2)"
      "failed (buffer st') = failed (buffer st1) + snd (tally snk tr1 bs2)"
      "processed_count st' = processed_count st1 + int (length (accepted es))"
      "error_count st' = error_count st1 + int (length (undecodable es))"
    by blast
  have c: "concat (bs1 @ bs2) @ buf (buffer st') = buf (buffer st) @ accepted (e # es)"
  proof -
    have "concat (bs1 @ bs2) @ buf (buffer st') = concat bs1 @ (concat bs2 @ buf (buffer st'))"
      by simp
    also have "\<dots> = concat bs1 @ buf (buffer st1) @ accepted es"
      using b2(2) by simp
    also have "\<dots> = (buf (buffer st) @ accepted [e]) @ accepted es"
      using b1(2) by (metis append.assoc)
    finally show ?thesis
      unfolding accepted_append1[of e es] by simp
  qed
  have "tr' = tr @ (bs1 @ bs2)" using b1(1) b2(1) by simp
  moreover have "sent (buffer st') = sent (buffer st) + fst (tally snk tr (bs1 @ bs2))"
    using b1(1,3) b2(3) by (simp add: tally_append)
  moreover have "failed (buffer st') = failed (buffer st) + snd (tally snk tr (bs1 @ bs2))"
    using b1(1,4) b2(4) by (simp add: tally_append)
  moreover have "processed_count st' = processed_count st + int (length (accepted (e # es)))"
    using b1(5) b2(5) unfolding accepted_append1[of e es] by simp
  moreover have "error_count st' = error_count st + int (length (undecodable (e # es)))"
    using b1(6) b2(6) unfolding undecodable_append1[of e es] by simp
  ultimately show ?case using c by blast
qed

lemmas eval_main =
  main_def process_event_def decode_utf8_def isspace_def in_range_def add_def flush_def
  flush_if_needed_def HubBuffer_def eval_sender

section \<open>The claims\<close>

text \<open>
  Claim C1. When \<open>send_with_limits\<close> (and likewise \<open>send_with_size_limit\<close>) returns,
  the batches it handed to the sink, concatenated in dispatch order, are exactly the input
  payloads: same order, nothing dropped, nothing duplicated, no payload split. No empty
  batch is handed to the sink, and the packing is greedy: a batch is closed only when the
  next payload would not fit into it. For a sink that never raises the call does return.
  This holds for every \<open>max_count\<close> and \<open>max_bytes\<close>.
\<close>

theorem send_bounded_partitions_input:
  "(send_with_limits snk ps mb mc tr = (Inr r, tr') \<longrightarrow>
      (\<exists>bs. tr' = tr @ bs \<and> concat bs = ps \<and> [] \<notin> set bs \<and> greedy mb mc bs)) \<and>
   (send_with_size_limit snk ps mb mc tr = (Inr r, tr') \<longrightarrow>
      (\<exists>bs. tr' = tr @ bs \<and> concat bs = ps \<and> [] \<notin> set bs \<and> greedy mb mc bs)) \<and>
   ((\<forall>h b. snk h b \<noteq> Raises) \<longrightarrow>
      (\<exists>r tr'. send_with_limits snk ps mb mc tr = (Inr r, tr')) \<and>
      (\<exists>r tr'. send_with_size_limit snk ps mb mc tr = (Inr r, tr')))"
proof -
  have a: "\<exists>bs. tr' = tr @ bs \<and> concat bs = ps \<and> [] \<notin> set bs \<and> greedy mb mc bs"
    if h: "send_with_limits snk ps mb mc tr = (Inr r, tr')"
  proof -
    from send_with_limits_trace_ok[OF h] obtain bs where
      bs: "tr' = tr @ bs" "[] \<notin> set bs" "concat bs = ps" by blast
    from send_with_limits_greedy[OF h] obtain bs' where
      bs': "tr' = tr @ bs'" "greedy mb mc bs'" by blast
    from bs(1) bs'(1) have "bs' = bs" by simp
    with bs bs' show ?thesis by blast
  qed
  have b: "\<exists>r tr'. send_with_limits snk ps mb mc tr = (Inr r, tr')"
    if "\<forall>h b. snk h b \<noteq> Raises"
    using send_with_limits_no_raise[OF that] .
  from a b show ?thesis
    by (simp add: send_with_size_limit_eq)
qed

theorem send_bounded_partitions_input_witness:
  "send_with_limits accepting_sink [''a'', ''b'', ''c''] 1000 2 []
     = (Inr (3, 0, 2), [[''a'', ''b''], [''c'']]) \<and>
   send_with_size_limit accepting_sink [''a'', ''b'', ''c''] 1000 2 []
     = (Inr (3, 0, 2), [[''a'', ''b''], [''c'']]) \<and>
   (\<exists>bs. [[''a'', ''b''], [''c'']] = [] @ bs \<and> concat bs = [''a'', ''b'', ''c''] \<and>
         [] \<notin> set bs \<and> greedy 1000 2 bs)"
proof -
  have e: "send_with_limits accepting_sink [''a'', ''b'', ''c''] 1000 2 []
     = (Inr (3, 0, 2), [[''a'', ''b''], [''c'']])"
    by (simp add: eval_sender accepting_sink_def)
  have e': "send_with_size_limit accepting_sink [''a'', ''b'', ''c''] 1000 2 []
     = (Inr (3, 0, 2), [[''a'', ''b''], [''c'']])"
    by (simp add: eval_sender accepting_sink_def)
  from send_bounded_partitions_input[of accepting_sink "[''a'', ''b'', ''c'']" 1000 2 "[]"
      "(3, 0, 2)" "[[''a'', ''b''], [''c'']]"] e
  have "\<exists>bs. [[''a'', ''b''], [''c'']] = [] @ bs \<and> concat bs = [''a'', ''b'', ''c''] \<and>
         [] \<notin> set bs \<and> greedy 1000 2 bs"
    by blast
  with e e' show ?thesis by blast
qed

text \<open>
  Claim C2. As stated for every pair of limits the claim fails: with \<open>max_count = 0\<close>
  the payload \<open>a\<close> is dispatched alone, the batch has one item (more than
  \<open>max_count\<close>) and its estimate 54 is not above \<open>max_bytes = 1000\<close>.
\<close>

theorem dispatched_batches_limits_counterexample:
  "snd (send_with_limits accepting_sink [''a''] 1000 0 []) = [[''a'']] \<and>
   \<not> fits 1000 0 [''a''] \<and>
   \<not> estimate_batch_bytes [''a''] > 1000"
  by (simp add: eval_sender accepting_sink_def fits_def)

text \<open>
  Claim C2, amended. Whatever the outcome of \<open>send_with_limits\<close>, every batch handed
  to the sink is a non-empty run of consecutive input payloads, and it either satisfies
  both limits or is a single payload that alone breaks a limit: its estimate exceeds
  \<open>max_bytes\<close>, or \<open>max_count < 1\<close>. For \<open>max_count \<ge> 1\<close> the only exception is the
  oversized single payload, sent as it is.
\<close>

theorem dispatched_batches_respect_limits:
  "send_with_limits snk ps mb mc tr = (res, tr') \<Longrightarrow>
   \<exists>bs rest. tr' = tr @ bs \<and> concat bs @ rest = ps \<and>
     (\<forall>b\<in>set bs. b \<noteq> [] \<and>
        ((int (length b) \<le> mc \<and> estimate_batch_bytes b \<le> mb) \<or>
         (length b = 1 \<and> (estimate_batch_bytes b > mb \<or> mc < 1))))"
proof -
  assume h: "send_with_limits snk ps mb mc tr = (res, tr')"
  from send_with_limits_trace_any[OF h] obtain bs rest where
    bs: "tr' = tr @ bs" "[] \<notin> set bs" "concat bs @ rest = ps" by blast
  from send_with_limits_admissible[OF h] obtain bs' where
    bs': "tr' = tr @ bs'" "\<forall>b\<in>set bs'. admissible mb mc b" by blast
  from bs(1) bs'(1) have "bs' = bs" by simp
  with bs' have "\<forall>b\<in>set bs. b \<noteq> [] \<and>
        ((int (length b) \<le> mc \<and> estimate_batch_bytes b \<le> mb) \<or>
         (length b = 1 \<and> (estimate_batch_bytes b > mb \<or> mc < 1)))"
    using bs(2) by (auto simp: admissible_def fits_def)
  with bs show ?thesis by blast
qed

theorem dispatched_batches_respect_limits_witness:
  "send_with_limits accepting_sink
      [''aaaaaaaaaaaaaaaaaaaaaaaaaaaaaaaaaaaaaaaaaaaaaaaa'', ''b'', ''c''] 110 5 []
     = (Inr (3, 0, 3), [[''aaaaaaaaaaaaaaaaaaaaaaaaaaaaaaaaaaaaaaaaaaaaaaaa''], [''b'', ''c'']]) \<and>
   (\<exists>bs rest. [[''aaaaaaaaaaaaaaaaaaaaaaaaaaaaaaaaaaaaaaaaaaaaaaaa''], [''b'', ''c'']] = [] @ bs \<and>
      concat bs @ rest = [''aaaaaaaaaaaaaaaaaaaaaaaaaaaaaaaaaaaaaaaaaaaaaaaa'', ''b'', ''c''] \<and>
      (\<forall>b\<in>set bs. b \<noteq> [] \<and>
        ((int (length b) \<le> 5 \<and> estimate_batch_bytes b \<le> 110) \<or>
         (length b = 1 \<and> (estimate_batch_bytes b > 110 \<or> (5::int) < 1)))))"
proof -
  have e: "send_with_limits accepting_sink
      [''aaaaaaaaaaaaaaaaaaaaaaaaaaaaaaaaaaaaaaaaaaaaaaaa'', ''b'', ''c''] 110 5 []
     = (Inr (3, 0, 3), [[''aaaaaaaaaaaaaaaaaaaaaaaaaaaaaaaaaaaaaaaaaaaaaaaa''], [''b'', ''c'']])"
    by (simp add: eval_sender accepting_sink_def)
  from dispatched_batches_respect_limits[OF e] e show ?thesis by blast
qed

text \<open>
  Claim C3. \<open>HubBuffer.flush\<close> on an empty buffer changes nothing and calls no sink.
  Whenever \<open>flush\<close> returns, the buffer is empty whatever the limits and whatever the
  per-item results: each buffered payload was handed to the sink once, in order, and
  \<open>sent\<close> and \<open>failed\<close> grew by the successes and failures the sink reported. With a
  sink that never raises, \<open>flush\<close> returns.
\<close>

theorem forced_flush_empties_buffer:
  "(buf hb = [] \<longrightarrow> flush snk hb tr = (Inr (), hb, tr)) \<and>
   (flush snk hb tr = (Inr u, hb', tr') \<longrightarrow>
      buf hb' = [] \<and> max_count hb' = max_count hb \<and> max_bytes hb' = max_bytes hb \<and>
      (\<exists>bs. tr' = tr @ bs \<and> concat bs = buf hb \<and>
            sent hb' = sent hb + fst (tally snk tr bs) \<and>
            failed hb' = failed hb + snd (tally snk tr bs))) \<and>
   ((\<forall>h b. snk h b \<noteq> Raises) \<longrightarrow> (\<exists>hb' tr'. flush snk hb tr = (Inr (), hb', tr')))"
proof -
  have a: "buf hb = [] \<Longrightarrow> flush snk hb tr = (Inr (), hb, tr)"
    by (simp add: flush_def flush_if_needed_def)
  have b: "buf hb' = [] \<and> max_count hb' = max_count hb \<and> max_bytes hb' = max_bytes hb \<and>
      (\<exists>bs. tr' = tr @ bs \<and> concat bs = buf hb \<and>
            sent hb' = sent hb + fst (tally snk tr bs) \<and>
            failed hb' = failed hb + snd (tally snk tr bs))"
    if h: "flush snk hb tr = (Inr u, hb', tr')"
  proof -
    from h have fl: "flush_if_needed snk True hb tr = (Inr u, hb', tr')"
      by (simp add: flush_def)
    show ?thesis
    proof (cases "buf hb = []")
      case True
      with flush_if_needed_skip[of hb True snk tr] fl have "hb' = hb" "tr' = tr @ []"
        by simp_all
      with True show ?thesis by (intro conjI exI[of _ "[]"]) simp_all
    next
      case False
      have tg: "triggered True hb" by (simp add: triggered_def)
      obtain r tr1 where sw: "send_with_limits snk (buf hb) (max_bytes hb) (max_count hb) tr = (r, tr1)"
        by (cases "send_with_limits snk (buf hb) (max_bytes hb) (max_count hb) tr")
      show ?thesis
      proof (cases r)
        case (Inl e)
        with flush_if_needed_err[OF False tg, of snk tr e tr1] sw fl show ?thesis by simp
      next
        case (Inr sfb)
        obtain s f b where sfb: "sfb = (s, f, b)" by (cases sfb)
        with Inr sw have sw': "send_with_limits snk (buf hb) (max_bytes hb) (max_count hb) tr
            = (Inr (s, f, b), tr1)" by simp
        from flush_if_needed_ok[OF False tg sw'] fl
        have hb': "hb' = hb\<lparr>sent := sent hb + s, failed := failed hb + f,
                         batches := batches hb + b, buf := []\<rparr>" and t: "tr' = tr1"
          by simp_all
        from send_with_limits_trace_ok[OF sw'] obtain bs where
          bs: "tr1 = tr @ bs" "concat bs = buf hb" by blast
        from send_with_limits_tally[OF sw'] obtain bs' where
          bs': "tr1 = tr @ bs'" "s = fst (tally snk tr bs')" "f = snd (tally snk tr bs')" by blast
        from bs(1) bs'(1) have "bs' = bs" by simp
        with bs bs' hb' t show ?thesis by (intro conjI exI[of _ bs]) simp_all
      qed
    qed
  qed
  have c: "\<exists>hb' tr'. flush snk hb tr = (Inr (), hb', tr')" if nr: "\<forall>h b. snk h b \<noteq> Raises"
  proof -
    from send_with_limits_no_raise[OF nr, of "buf hb" "max_bytes hb" "max_count hb" tr]
    obtain s f b tr' where
      "send_with_limits snk (buf hb) (max_bytes hb) (max_count hb) tr = (Inr (s, f, b), tr')"
      by auto
    then show ?thesis
      by (simp add: flush_def flush_if_needed_def)
  qed
  from a b c show ?thesis by blast
qed

theorem forced_flush_empties_buffer_witness:
  "flush picky_sink ((HubBuffer 100 1048576)\<lparr>buf := [''ok'', ''bad'']\<rparr>) []
     = (Inr (), (HubBuffer 100 1048576)\<lparr>sent := 1, failed := 1, batches := 1\<rparr>,
        [[''ok'', ''bad'']]) \<and>
   buf ((HubBuffer 100 1048576)\<lparr>sent := 1, failed := 1, batches := 1\<rparr>) = [] \<and>
   flush picky_sink (HubBuffer 100 1048576) [] = (Inr (), HubBuffer 100 1048576, [])"
proof -
  let ?hb = "(HubBuffer 100 1048576)\<lparr>buf := [''ok'', ''bad'']\<rparr>"
  let ?hb' = "(HubBuffer 100 1048576)\<lparr>sent := 1, failed := 1, batches := 1\<rparr>"
  have e: "flush picky_sink ?hb [] = (Inr (), ?hb', [[''ok'', ''bad'']])"
    by (simp add: flush_def flush_if_needed_def HubBuffer_def eval_sender picky_sink_def)
  have n: "buf (HubBuffer 100 1048576) = []"
    by (simp add: HubBuffer_def)
  from forced_flush_empties_buffer[of ?hb picky_sink "[]" "()" ?hb' "[[''ok'', ''bad'']]"] e
  have "buf ?hb' = []" by blast
  moreover from forced_flush_empties_buffer[of "HubBuffer 100 1048576" picky_sink "[]"] n
  have "flush picky_sink (HubBuffer 100 1048576) [] = (Inr (), HubBuffer 100 1048576, [])"
    by blast
  ultimately show ?thesis using e by blast
qed

text \<open>
  Claim C4. The second half of the claim fails on the empty buffer when \<open>max_count\<close> is
  zero: the count threshold is met (\<open>0 \<ge> 0\<close>), yet the method returns at once and
  dispatches nothing.
\<close>

theorem unforced_flush_counterexample:
  "flush_if_needed accepting_sink False (HubBuffer 0 1048576) []
     = (Inr (), HubBuffer 0 1048576, []) \<and>
   int (length (buf (HubBuffer 0 1048576))) \<ge> max_count (HubBuffer 0 1048576)"
  by (simp add: flush_if_needed_def HubBuffer_def)

text \<open>
  Claim C4, amended. A non-forced \<open>_flush_if_needed\<close> on a buffer that is empty, or whose
  length is below \<open>max_count\<close> and whose estimate is below \<open>max_bytes\<close>, returns with
  the buffer, the totals and the trace unchanged. A non-forced flush calls the sink
  exactly when the buffer is non-empty and its length has reached \<open>max_count\<close> or its
  estimate has reached \<open>max_bytes\<close>.
\<close>

theorem unforced_flush_dispatches_iff:
  "((buf hb = [] \<or> (int (length (buf hb)) < max_count hb \<and>
                     estimate_batch_bytes (buf hb) < max_bytes hb)) \<longrightarrow>
      flush_if_needed snk False hb tr = (Inr (), hb, tr)) \<and>
   (flush_if_needed snk False hb tr = (res, hb', tr') \<longrightarrow>
      (tr' \<noteq> tr) =
        (buf hb \<noteq> [] \<and> (int (length (buf hb)) \<ge> max_count hb \<or>
                          estimate_batch_bytes (buf hb) \<ge> max_bytes hb)))"
proof -
  have a: "flush_if_needed snk False hb tr = (Inr (), hb, tr)"
    if "buf hb = [] \<or> (int (length (buf hb)) < max_count hb \<and>
                     estimate_batch_bytes (buf hb) < max_bytes hb)"
    using that by (intro flush_if_needed_skip) (auto simp: triggered_def)
  have b: "(tr' \<noteq> tr) =
        (buf hb \<noteq> [] \<and> (int (length (buf hb)) \<ge> max_count hb \<or>
                          estimate_batch_bytes (buf hb) \<ge> max_bytes hb))"
    if "flush_if_needed snk False hb tr = (res, hb', tr')"
    using flush_if_needed_trace[OF that] by (simp add: triggered_def)
  from a b show ?thesis by blast
qed

theorem unforced_flush_dispatches_iff_witness:
  "flush_if_needed accepting_sink False ((HubBuffer 2 1048576)\<lparr>buf := [''a'']\<rparr>) []
     = (Inr (), (HubBuffer 2 1048576)\<lparr>buf := [''a'']\<rparr>, []) \<and>
   flush_if_needed accepting_sink False ((HubBuffer 2 1048576)\<lparr>buf := [''a'', ''b'']\<rparr>) []
     = (Inr (), (HubBuffer 2 1048576)\<lparr>sent := 2, batches := 1\<rparr>, [[''a'', ''b'']]) \<and>
   ([[''a'', ''b'']] \<noteq> ([] :: trace)) =
     (buf ((HubBuffer 2 1048576)\<lparr>buf := [''a'', ''b'']\<rparr>) \<noteq> [] \<and>
      (int (length (buf ((HubBuffer 2 1048576)\<lparr>buf := [''a'', ''b'']\<rparr>)))
         \<ge> max_count ((HubBuffer 2 1048576)\<lparr>buf := [''a'', ''b'']\<rparr>) \<or>
       estimate_batch_bytes (buf ((HubBuffer 2 1048576)\<lparr>buf := [''a'', ''b'']\<rparr>))
         \<ge> max_bytes ((HubBuffer 2 1048576)\<lparr>buf := [''a'', ''b'']\<rparr>)))"
proof -
  let ?h1 = "(HubBuffer 2 1048576)\<lparr>buf := [''a'']\<rparr>"
  let ?h2 = "(HubBuffer 2 1048576)\<lparr>buf := [''a'', ''b'']\<rparr>"
  have below: "int (length (buf ?h1)) < max_count ?h1 \<and>
               estimate_batch_bytes (buf ?h1) < max_bytes ?h1"
    by (simp add: HubBuffer_def estimate_Nil estimate_Cons)
  have e2: "flush_if_needed accepting_sink False ?h2 []
     = (Inr (), (HubBuffer 2 1048576)\<lparr>sent := 2, batches := 1\<rparr>, [[''a'', ''b'']])"
    by (simp add: flush_if_needed_def HubBuffer_def eval_sender accepting_sink_def)
  from unforced_flush_dispatches_iff[of ?h1 accepting_sink "[]"] below
  have "flush_if_needed accepting_sink False ?h1 [] = (Inr (), ?h1, [])"
    by blast
  moreover from unforced_flush_dispatches_iff[of ?h2 accepting_sink "[]" "Inr ()"
      "(HubBuffer 2 1048576)\<lparr>sent := 2, batches := 1\<rparr>" "[[''a'', ''b'']]"] e2
  have "([[''a'', ''b'']] \<noteq> ([] :: trace)) =
     (buf ?h2 \<noteq> [] \<and> (int (length (buf ?h2)) \<ge> max_count ?h2 \<or>
       estimate_batch_bytes (buf ?h2) \<ge> max_bytes ?h2))"
    by blast
  ultimately show ?thesis using e2 by blast
qed

text \<open>
  Claim C5. With \<open>max_count = 2\<close> and \<open>max_bytes\<close> above 108 (the estimate of
  \<open>[a, b]\<close>), adding \<open>a\<close> dispatches nothing; adding \<open>b\<close> dispatches the one batch
  \<open>[a, b]\<close>, counts one batch and empties the buffer; adding \<open>c\<close> dispatches nothing
  and leaves exactly \<open>[c]\<close> pending. The sink is assumed to answer the call.
\<close>

theorem add_three_with_max_count_two:
  assumes "108 < mb" and "snk tr [''a'', ''b''] = Entries es"
  shows "add snk ''a'' (HubBuffer 2 mb) tr
           = (Inr (), (HubBuffer 2 mb)\<lparr>buf := [''a'']\<rparr>, tr) \<and>
         add snk ''b'' ((HubBuffer 2 mb)\<lparr>buf := [''a'']\<rparr>) tr
           = (Inr (),
              (HubBuffer 2 mb)\<lparr>sent := fst (count_entries es 0 0),
                                failed := snd (count_entries es 0 0), batches := 1\<rparr>,
              tr @ [[''a'', ''b'']]) \<and>
         add snk ''c''
             ((HubBuffer 2 mb)\<lparr>sent := fst (count_entries es 0 0),
                               failed := snd (count_entries es 0 0), batches := 1\<rparr>)
             (tr @ [[''a'', ''b'']])
           = (Inr (),
              (HubBuffer 2 mb)\<lparr>sent := fst (count_entries es 0 0),
                                failed := snd (count_entries es 0 0), batches := 1,
                                buf := [''c'']\<rparr>,
              tr @ [[''a'', ''b'']])"
  using assms
  by (simp add: add_def flush_if_needed_def HubBuffer_def eval_sender split: prod.splits)

theorem add_three_with_max_count_two_witness:
  "(108::int) < 1048576 \<and> accepting_sink [] [''a'', ''b''] = Entries [False, False] \<and>
   add accepting_sink ''a'' (HubBuffer 2 1048576) []
     = (Inr (), (HubBuffer 2 1048576)\<lparr>buf := [''a'']\<rparr>, []) \<and>
   add accepting_sink ''b'' ((HubBuffer 2 1048576)\<lparr>buf := [''a'']\<rparr>) []
     = (Inr (), (HubBuffer 2 1048576)\<lparr>sent := 2, failed := 0, batches := 1\<rparr>,
        [[''a'', ''b'']]) \<and>
   add accepting_sink ''c'' ((HubBuffer 2 1048576)\<lparr>sent := 2, failed := 0, batches := 1\<rparr>)
       [[''a'', ''b'']]
     = (Inr (), (HubBuffer 2 1048576)\<lparr>sent := 2, failed := 0, batches := 1, buf := [''c'']\<rparr>,
        [[''a'', ''b'']])"
proof -
  have h1: "(108::int) < 1048576" by simp
  have h2: "accepting_sink [] [''a'', ''b''] = Entries [False, False]"
    by (simp add: accepting_sink_def)
  from add_three_with_max_count_two[where snk = accepting_sink and tr = "[]"
      and mb = 1048576 and es = "[False, False]", OF h1 h2] h1 h2
  show ?thesis
    by simp
qed

text \<open>
  Claim C7. As stated the claim fails: after the undecodable event \<open>0xFF\<close> the next
  event, a single space, decodes but is skipped by the empty-body guard, so it is not
  buffered: the buffer stays empty, nothing is dispatched and \<open>processed\<close> is zero.
\<close>

theorem decode_failure_counterexample:
  "decode_utf8 [CHR 0xFF] = Inl UnicodeDecodeError \<and>
   decode_utf8 '' '' = Inr '' '' \<and>
   main_loop accepting_sink [[CHR 0xFF], '' '']
     \<lparr>buffer = HubBuffer 100 1048576, processed_count = 0, error_count = 0\<rparr> []
     = (\<lparr>buffer = HubBuffer 100 1048576, processed_count = 0, error_count = 1\<rparr>, []) \<and>
   main accepting_sink 100 1048576 [[CHR 0xFF], '' ''] [] = (Inr (Some (0, 0, 1, 0)), [])"
  by (simp add: eval_main)

text \<open>
  Claim C7, amended. An event whose body fails UTF-8 decoding only adds one to the error
  count: the events after it are processed from the state the events before it left. A
  later event is buffered when its body decodes to a string that is neither empty nor all
  whitespace. When \<open>main\<close> reports its summary, \<open>processed\<close> is at most the number of
  such events, so it excludes the undecodable ones, and \<open>failed\<close> is at least the number
  of undecodable events. With a sink that never raises, \<open>main\<close> does report: \<open>processed\<close>
  is exactly the number of buffered events, \<open>failed\<close> is the sink's per-item failures
  plus the number of undecodable events, and the batches handed to the sink, concatenated,
  are exactly the buffered bodies in arrival order.
\<close>

theorem decode_failure_does_not_stop_processing:
  "(decode_utf8 e = Inl err \<longrightarrow>
      main_loop snk (pre @ e # post) st tr =
        (case main_loop snk pre st tr of
           (st1, tr1) \<Rightarrow> main_loop snk post (st1\<lparr>error_count := error_count st1 + 1\<rparr>) tr1)) \<and>
   (main snk mc mb events tr = (Inr (Some (p, s, f, b)), tr') \<longrightarrow>
      p \<le> int (length (accepted events)) \<and> int (length (undecodable events)) \<le> f) \<and>
   ((\<forall>h b. snk h b \<noteq> Raises) \<and> events \<noteq> [] \<longrightarrow>
      (\<exists>bs n. main snk mc mb events tr =
          (Inr (Some (int (length (accepted events)), fst (tally snk tr bs),
                      snd (tally snk tr bs) + int (length (undecodable events)), n)),
           tr @ bs)
        \<and> concat bs = accepted events))"
proof -
  let ?init = "\<lparr>buffer = HubBuffer mc mb, processed_count = 0, error_count = 0\<rparr>"
  have i: "main_loop snk (pre @ e # post) st tr =
        (case main_loop snk pre st tr of
           (st1, tr1) \<Rightarrow> main_loop snk post (st1\<lparr>error_count := error_count st1 + 1\<rparr>) tr1)"
    if "decode_utf8 e = Inl err"
    using process_event_bad[OF that]
    by (simp add: main_loop_append split: prod.splits)
  have ii: "p \<le> int (length (accepted events)) \<and> int (length (undecodable events)) \<le> f"
    if m: "main snk mc mb events tr = (Inr (Some (p, s, f, b)), tr')"
  proof -
    obtain st1 tr1 where ml: "main_loop snk events ?init tr = (st1, tr1)"
      by (cases "main_loop snk events ?init tr")
    obtain r hb tr2 where fl: "flush snk (buffer st1) tr1 = (r, hb, tr2)"
      by (cases "flush snk (buffer st1) tr1")
    from m have ne: "events \<noteq> []"
      by (auto simp: main_def)
    from m ne ml fl have pf: "p = processed_count st1" "f = failed hb + error_count st1"
      by (cases r; simp add: main_def)+
    from main_loop_counts[OF ml]
    have c: "processed_count st1 + error_count st1
               = int (length (accepted events)) + int (length (undecodable events))"
      "int (length (undecodable events)) \<le> error_count st1"
      by simp_all
    from main_loop_failed_mono[OF ml] have "0 \<le> failed (buffer st1)"
      by (simp add: HubBuffer_def)
    moreover from fl have "failed (buffer st1) \<le> failed hb"
      unfolding flush_def by (rule flush_if_needed_failed_mono)
    ultimately have "0 \<le> failed hb" by simp
    with pf c show ?thesis by simp
  qed
  have iii: "\<exists>bs n. main snk mc mb events tr =
          (Inr (Some (int (length (accepted events)), fst (tally snk tr bs),
                      snd (tally snk tr bs) + int (length (undecodable events)), n)),
           tr @ bs)
        \<and> concat bs = accepted events"
    if nr: "\<forall>h b. snk h b \<noteq> Raises" and ne: "events \<noteq> []"
  proof -
    obtain st1 tr1 where ml: "main_loop snk events ?init tr = (st1, tr1)"
      by (cases "main_loop snk events ?init tr")
    from main_loop_no_raise[OF nr ml] obtain bs1 where
      b1: "tr1 = tr @ bs1"
        "concat bs1 @ buf (buffer st1) = accepted events"
        "sent (buffer st1) = fst (tally snk tr bs1)"
        "failed (buffer st1) = snd (tally snk tr bs1)"
        "processed_count st1 = int (length (accepted events))"
        "error_count st1 = int (length (undecodable events))"
      by (auto simp: HubBuffer_def)
    from flush_if_needed_no_raise[OF nr, of True "buffer st1" tr1] obtain hb tr2 where
      fl: "flush_if_needed snk True (buffer st1) tr1 = (Inr (), hb, tr2)" by blast
    from flush_if_needed_result[OF fl] obtain bs2 where
      b2: "tr2 = tr1 @ bs2" "concat bs2 @ buf hb = buf (buffer st1)"
        "sent hb = sent (buffer st1) + fst (tally snk tr1 bs2)"
        "failed hb = failed (buffer st1) + snd (tally snk tr1 bs2)"
      by blast
    have e: "buf hb = []"
    proof (cases "buf (buffer st1) = []")
      case True
      with b2(2) show ?thesis by simp
    next
      case False
      have tg: "triggered True (buffer st1)" by (simp add: triggered_def)
      obtain r tr3 where sw: "send_with_limits snk (buf (buffer st1)) (max_bytes (buffer st1))
          (max_count (buffer st1)) tr1 = (r, tr3)"
        by (cases "send_with_limits snk (buf (buffer st1)) (max_bytes (buffer st1))
          (max_count (buffer st1)) tr1")
      show ?thesis
      proof (cases r)
        case (Inl e1)
        with flush_if_needed_err[OF False tg, of snk tr1 e1 tr3] sw fl show ?thesis by simp
      next
        case (Inr sfb)
        obtain s f b where "sfb = (s, f, b)" by (cases sfb)
        with Inr flush_if_needed_ok[OF False tg, of snk tr1 s f b tr3] sw fl show ?thesis by auto
      qed
    qed
    have m: "main snk mc mb events tr =
        (Inr (Some (processed_count st1, sent hb, failed hb + error_count st1, batches hb)), tr2)"
      using ne ml fl by (simp add: main_def flush_def)
    have "tr2 = tr @ (bs1 @ bs2)" using b1(1) b2(1) by simp
    moreover have "sent hb = fst (tally snk tr (bs1 @ bs2))"
      using b1(1,3) b2(3) by (simp add: tally_append)
    moreover have "failed hb = snd (tally snk tr (bs1 @ bs2))"
      using b1(1,4) b2(4) by (simp add: tally_append)
    moreover have "concat (bs1 @ bs2) = accepted events"
      using b1(2) b2(2) e by simp
    ultimately show ?thesis using m b1(5,6) by (intro exI[of _ "bs1 @ bs2"] exI[of _ "batches hb"]) simp
  qed
  from i ii iii show ?thesis by blast
qed

theorem decode_failure_does_not_stop_processing_witness:
  "decode_utf8 [CHR 0xFF] = Inl UnicodeDecodeError \<and>
   main accepting_sink 2 1048576 [''a'', [CHR 0xFF], ''b'', '' '', ''c''] []
     = (Inr (Some (3, 3, 1, 2)), [[''a'', ''b''], [''c'']]) \<and>
   accepted [''a'', [CHR 0xFF], ''b'', '' '', ''c''] = [''a'', ''b'', ''c''] \<and>
   undecodable [''a'', [CHR 0xFF], ''b'', '' '', ''c''] = [[CHR 0xFF]] \<and>
   (3::int) \<le> int (length (accepted [''a'', [CHR 0xFF], ''b'', '' '', ''c''])) \<and>
   int (length (undecodable [''a'', [CHR 0xFF], ''b'', '' '', ''c''])) \<le> (1::int)"
proof -
  let ?evs = "[''a'', [CHR 0xFF], ''b'', '' '', ''c'']"
  have d: "decode_utf8 [CHR 0xFF] = Inl UnicodeDecodeError"
    by (simp add: decode_utf8_def)
  have m: "main accepting_sink 2 1048576 ?evs [] = (Inr (Some (3, 3, 1, 2)), [[''a'', ''b''], [''c'']])"
    by (simp add: eval_main accepting_sink_def)
  have a: "accepted ?evs = [''a'', ''b'', ''c'']"
    by (simp add: event_payload_def decode_utf8_def isspace_def)
  have u: "undecodable ?evs = [[CHR 0xFF]]"
    by (simp add: undecodable_def)
  from decode_failure_does_not_stop_processing[of "[CHR 0xFF]" UnicodeDecodeError
      accepting_sink "[''a'']" "[''b'', '' '', ''c'']" _ "[]" 2 1048576 ?evs 3 3 1 2
      "[[''a'', ''b''], [''c'']]"] m
  have "(3::int) \<le> int (length (accepted ?evs)) \<and> int (length (undecodable ?evs)) \<le> (1::int)"
    by blast
  with d m a u show ?thesis by blast
qed

text \<open>
  Claim C8. As stated for every flush and every buffer the claim fails: in log-only mode
  a forced flush of the empty buffer prints nothing, and a non-forced flush leaves the
  buffer \<open>[a]\<close> as it is and prints nothing.
\<close>

theorem log_only_flush_counterexample:
  "oci_sender log_only = None \<and>
   drainer_flush_if_needed True log_only [] [] = (Inr (), log_only, [], []) \<and>
   drainer_flush_if_needed False (log_only\<lparr>drainer_buffer := [''a'']\<rparr>) [] []
     = (Inr (), log_only\<lparr>drainer_buffer := [''a'']\<rparr>, [], [])"
  by (simp add: drainer_flush_if_needed_def log_only_def)

text \<open>
  Claim C8, amended. In log-only mode (\<open>oci_sender\<close> is \<open>None\<close>)
  \<open>EventHubDrainer._flush_if_needed\<close> never calls the sink and never raises. A forced
  flush of a non-empty buffer clears the buffer and prints the one notice with the number
  of discarded messages, leaving the counters as they were; a non-forced flush, and a
  forced flush of the empty buffer, change nothing and print nothing.
\<close>

theorem log_only_flush:
  assumes "oci_sender d = None"
  shows "\<exists>d' out'. drainer_flush_if_needed force d tr out = (Inr (), d', tr, out') \<and>
     (if force \<and> drainer_buffer d \<noteq> [] then
        d' = d\<lparr>drainer_buffer := []\<rparr> \<and> out' = out @ [WouldSend (length (drainer_buffer d))]
      else d' = d \<and> out' = out)"
  using assms by (simp add: drainer_flush_if_needed_def)

theorem log_only_flush_witness:
  "oci_sender (log_only\<lparr>drainer_buffer := [''a'', ''b'']\<rparr>) = None \<and>
   drainer_flush_if_needed True (log_only\<lparr>drainer_buffer := [''a'', ''b'']\<rparr>) [] []
     = (Inr (), log_only, [], [WouldSend 2])"
proof -
  let ?d = "log_only\<lparr>drainer_buffer := [''a'', ''b'']\<rparr>"
  have h: "oci_sender ?d = None"
    by (simp add: log_only_def)
  have c: "?d\<lparr>drainer_buffer := []\<rparr> = log_only"
    by (simp add: log_only_def)
  from log_only_flush[OF h, of True "[]" "[]"] h c show ?thesis
    by auto
qed

text \<open>
  Claim C9. \<open>send_batch\<close> on the empty batch returns \<open>(0, 0)\<close> without calling the
  sink. For a non-empty input, the batch count returned by \<open>send_with_limits\<close> is the
  number of calls made to the sink, plus one when the first payload alone already breaks
  a limit (more than \<open>max_count\<close> items, or an estimate above \<open>max_bytes\<close>): the
  empty batch closed before it is counted although nothing is sent.
\<close>

theorem batch_count_counts_closes:
  "send_batch snk [] tr = (Inr (0, 0), tr) \<and>
   send_with_limits snk [] mb mc tr = (Inr (0, 0, 0), tr) \<and>
   (send_with_limits snk (p # ps) mb mc tr = (Inr (s, f, b), tr') \<longrightarrow>
      b = int (length tr') - int (length tr)
          + (if 1 > mc \<or> estimate_batch_bytes [p] > mb then 1 else 0))"
proof -
  have c: "b = int (length tr') - int (length tr)
          + (if 1 > mc \<or> estimate_batch_bytes [p] > mb then 1 else 0)"
    if h: "send_with_limits snk (p # ps) mb mc tr = (Inr (s, f, b), tr')"
  proof -
    from send_with_limits_cases[OF h] obtain ts tf nb batch tr1 r' where
      lp: "send_loop snk mb mc (p # ps) 0 0 0 [] tr = (Inr (ts, tf, nb, batch), tr1)" and
      fin: "if batch = [] then tr' = tr1 \<and> Inr (s, f, b) = (Inr (ts, tf, nb) :: error + int \<times> int \<times> int)
          else send_batch snk batch tr1 = (r', tr') \<and>
               (case r' of Inl e \<Rightarrow> Inr (s, f, b) = (Inl e :: error + int \<times> int \<times> int)
                | Inr (s', f') \<Rightarrow> Inr (s, f, b) = (Inr (ts + s', tf + f', nb + 1) :: error + int \<times> int \<times> int))"
      by auto
    from send_loop_final_nonempty[OF lp] have ne: "batch \<noteq> []" by simp
    with fin have sb: "send_batch snk batch tr1 = (r', tr')" by simp
    from send_batch_trace[OF sb] ne have t': "tr' = tr1 @ [batch]" by simp
    from fin ne have b: "b = nb + 1" by (cases r') auto
    show ?thesis
    proof (cases "int (length ([] @ [p])) > mc \<or> estimate_batch_bytes ([] @ [p]) > mb")
      case False
      from send_loop_count[OF send_loop_step_keep[OF False lp]]
      have "nb - 0 = int (length tr1) - int (length tr)" by simp
      with b t' False show ?thesis by simp
    next
      case True
      from send_loop_step_close[OF True lp] obtain s0 f0 tr0 where
        sb0: "send_batch snk [] tr = (Inr (s0, f0), tr0)" and
        lp0: "send_loop snk mb mc ps (0 + s0) (0 + f0) (0 + 1) [p] tr0 = (Inr (ts, tf, nb, batch), tr1)"
        by auto
      from sb0 have "tr0 = tr" by (simp add: send_batch_def)
      with send_loop_count[OF lp0] have "nb - 1 = int (length tr1) - int (length tr)" by simp
      with b t' True show ?thesis by simp
    qed
  qed
  have "send_with_limits snk [] mb mc tr = (Inr (0, 0, 0), tr)"
    by (simp add: send_with_limits_def)
  with c show ?thesis
    by (simp add: send_batch_def)
qed

theorem batch_count_counts_closes_witness:
  "send_with_limits accepting_sink [''a''] 50 100 [] = (Inr (1, 0, 2), [[''a'']]) \<and>
   (2::int) = int (length [[''a'']]) - int (length ([] :: trace))
        + (if 1 > (100::int) \<or> estimate_batch_bytes [''a''] > 50 then 1 else 0) \<and>
   (2::int) > int (length [[''a'']])"
proof -
  have e: "send_with_limits accepting_sink [''a''] 50 100 [] = (Inr (1, 0, 2), [[''a'']])"
    by (simp add: eval_sender accepting_sink_def)
  from batch_count_counts_closes[of accepting_sink "[]" 50 100 "''a''" "[]" 1 0 2 "[[''a'']]"] e
  have "(2::int) = int (length [[''a'']]) - int (length ([] :: trace))
        + (if 1 > (100::int) \<or> estimate_batch_bytes [''a''] > 50 then 1 else 0)"
    by blast
  with e show ?thesis by simp
qed

text \<open>
  Claim C10. When \<open>HubBuffer._flush_if_needed\<close> (forced or not) ends with the sink's
  exception, the last call made to the sink is the one that raised, and the buffer and
  the totals \<open>sent\<close>, \<open>failed\<close> and \<open>batches\<close> are what they were before. Conversely,
  if any call made to the sink during the flush raised, the flush ends with that
  exception and the unchanged state.
\<close>

theorem flush_raise_leaves_state:
  "(flush_if_needed snk force hb tr = (Inl e, hb', tr') \<longrightarrow>
      hb' = hb \<and> e = SinkUnavailableError \<and>
      (\<exists>bs b. tr' = tr @ bs @ [b] \<and> replies_ok snk tr bs \<and> snk (tr @ bs) b = Raises)) \<and>
   (flush_if_needed snk force hb tr = (res, hb', tr @ bs) \<and> \<not> replies_ok snk tr bs \<longrightarrow>
      res = Inl SinkUnavailableError \<and> hb' = hb)"
proof -
  have a: "hb' = hb \<and> e = SinkUnavailableError \<and>
      (\<exists>bs b. tr' = tr @ bs @ [b] \<and> replies_ok snk tr bs \<and> snk (tr @ bs) b = Raises)"
    if fl: "flush_if_needed snk force hb tr = (Inl e, hb', tr')" for e hb' tr'
  proof (cases "buf hb = [] \<or> \<not> triggered force hb")
    case True
    from flush_if_needed_skip[OF True, of snk tr] fl show ?thesis by simp
  next
    case False
    then have ne: "buf hb \<noteq> []" and tg: "triggered force hb" by auto
    obtain r tr1 where sw: "send_with_limits snk (buf hb) (max_bytes hb) (max_count hb) tr = (r, tr1)"
      by (cases "send_with_limits snk (buf hb) (max_bytes hb) (max_count hb) tr")
    show ?thesis
    proof (cases r)
      case (Inl e1)
      with sw have sw': "send_with_limits snk (buf hb) (max_bytes hb) (max_count hb) tr = (Inl e1, tr1)"
        by simp
      from flush_if_needed_err[OF ne tg sw'] fl have "e = e1" "hb' = hb" "tr' = tr1" by simp_all
      with send_with_limits_raises[OF sw'] show ?thesis by simp
    next
      case (Inr sfb)
      obtain s f b where "sfb = (s, f, b)" by (cases sfb)
      with Inr flush_if_needed_ok[OF ne tg, of snk tr s f b tr1] sw fl show ?thesis by simp
    qed
  qed
  have b: "res = Inl SinkUnavailableError \<and> hb' = hb"
    if fl: "flush_if_needed snk force hb tr = (res, hb', tr @ bs)" and nok: "\<not> replies_ok snk tr bs"
  proof (cases res)
    case (Inl e)
    with a[of e hb' "tr @ bs"] fl show ?thesis by simp
  next
    case (Inr u)
    have "replies_ok snk tr bs"
    proof (cases "buf hb = [] \<or> \<not> triggered force hb")
      case True
      from flush_if_needed_skip[OF True, of snk tr] fl show ?thesis by simp
    next
      case False
      then have ne: "buf hb \<noteq> []" and tg: "triggered force hb" by auto
      obtain r tr1 where sw: "send_with_limits snk (buf hb) (max_bytes hb) (max_count hb) tr = (r, tr1)"
        by (cases "send_with_limits snk (buf hb) (max_bytes hb) (max_count hb) tr")
      show ?thesis
      proof (cases r)
        case (Inl e1)
        with flush_if_needed_err[OF ne tg, of snk tr e1 tr1] sw fl Inr show ?thesis by simp
      next
        case r: (Inr sfb)
        obtain s f b where "sfb = (s, f, b)" by (cases sfb)
        with r sw have sw': "send_with_limits snk (buf hb) (max_bytes hb) (max_count hb) tr
            = (Inr (s, f, b), tr1)" by simp
        from flush_if_needed_ok[OF ne tg sw'] fl have "tr1 = tr @ bs" by simp
        with send_with_limits_replies_ok[OF sw'] show ?thesis by simp
      qed
    qed
    with nok show ?thesis by simp
  qed
  from a[of e hb' tr'] b show ?thesis by blast
qed

theorem flush_raise_leaves_state_witness:
  "flush_if_needed flaky_sink True ((HubBuffer 1 1048576)\<lparr>buf := [''a'', ''b''], sent := 7\<rparr>) []
     = (Inl SinkUnavailableError, (HubBuffer 1 1048576)\<lparr>buf := [''a'', ''b''], sent := 7\<rparr>,
        [[''a''], [''b'']]) \<and>
   (\<exists>bs b. [[''a''], [''b'']] = [] @ bs @ [b] \<and> replies_ok flaky_sink [] bs \<and>
           flaky_sink ([] @ bs) b = Raises)"
proof -
  let ?hb = "(HubBuffer 1 1048576)\<lparr>buf := [''a'', ''b''], sent := 7\<rparr>"
  have e: "flush_if_needed flaky_sink True ?hb [] = (Inl SinkUnavailableError, ?hb, [[''a''], [''b'']])"
    by (simp add: flush_if_needed_def HubBuffer_def eval_sender flaky_sink_def)
  from flush_raise_leaves_state[of flaky_sink True ?hb "[]" SinkUnavailableError ?hb
      "[[''a''], [''b'']]"] e
  show ?thesis by blast
qed

text \<open>
  Claim C6. The estimate of a list of payloads is the sum, over the payloads, of the
  length of the base64 encoding of the payload's UTF-8 bytes, which is four times the
  number of three-byte groups (rounded up) of a payload of \<open>n\<close> bytes, plus fifty per
  payload; the estimate of the empty list is zero.
\<close>

theorem estimate_batch_bytes_formula:
  "estimate_batch_bytes ms =
     (\<Sum>m\<leftarrow>ms. int (length (b64encode (encode_utf8 m)))) + 50 * int (length ms)
   \<and> estimate_batch_bytes ms =
     (\<Sum>m\<leftarrow>ms. 4 * ((int (length (encode_utf8 m)) + 2) div 3)) + 50 * int (length ms)
   \<and> estimate_batch_bytes [] = 0"
proof -
  have "\<And>m. int (length (b64encode (encode_utf8 m))) = 4 * ((int (length (encode_utf8 m)) + 2) div 3)"
    by (simp add: length_b64encode zdiv_int)
  then show ?thesis
    by (simp add: estimate_batch_bytes_def)
qed

end
